theory Spec2Isabelle
  imports Complex_Main "HOL-Library.Log_Nat"
begin

section \<open>Single-precision arithmetic\<close>

text \<open>
  A C++ \<^verbatim>\<open>float\<close> is an IEEE 754 binary32 value, and the program computes with it in the
  default rounding mode, to nearest with ties to even, every operation rounded to binary32
  (as on x86-64 and ARM, where \<^verbatim>\<open>FLT_EVAL_METHOD\<close> is 0). A finite value is the real number
  it denotes, and the negative zero has a constructor of its own.
\<close>

datatype float =
    Finite real
  | NegZero
  | Infinity bool    \<comment> \<open>\<open>True\<close> for the negative infinity\<close>
  | NaN

fun fval :: "float \<Rightarrow> real" where
  "fval (Finite x) = x"
| "fval NegZero = 0"
| "fval (Infinity s) = 0"
| "fval NaN = 0"

fun is_finite :: "float \<Rightarrow> bool" where
  "is_finite (Finite x) = True"
| "is_finite NegZero = True"
| "is_finite (Infinity s) = False"
| "is_finite NaN = False"

fun is_zero :: "float \<Rightarrow> bool" where
  "is_zero (Finite x) = (x = 0)"
| "is_zero NegZero = True"
| "is_zero (Infinity s) = False"
| "is_zero NaN = False"

fun sign_bit :: "float \<Rightarrow> bool" where
  "sign_bit (Finite x) = (x < 0)"
| "sign_bit NegZero = True"
| "sign_bit (Infinity s) = s"
| "sign_bit NaN = False"

definition signed_zero :: "bool \<Rightarrow> float" where
  "signed_zero s = (if s then NegZero else Finite 0)"

text \<open>
  Rounding a real number to binary32. The binary32 values around a magnitude \<open>a\<close> are the
  multiples of \<open>2 ^ (e - 23)\<close>, where \<open>e\<close> is the exponent of \<open>a\<close>, kept between \<open>-126\<close>
  (below it the values are subnormal) and \<open>127\<close>: \<open>binade a\<close> is \<open>e + 126\<close>, read off the
  number of binary digits of the integer part of \<open>a * 2 ^ 126\<close>, and \<open>quantum a\<close> is
  \<open>2 ^ (e - 23)\<close>. The multiple is chosen to nearest, ties to the even one; a result of
  \<open>2 ^ 128\<close> or more is an infinity, and a result of zero keeps the sign.
\<close>

definition binade :: "real \<Rightarrow> nat" where
  "binade a = min 253 (floorlog 2 (nat \<lfloor>a * 2 ^ 126\<rfloor>) - 1)"

definition quantum :: "real \<Rightarrow> real" where
  "quantum a = 2 ^ binade a / 2 ^ 149"

definition round_half_even :: "real \<Rightarrow> int" where
  "round_half_even r =
     (let f = \<lfloor>r\<rfloor>; d = r - of_int f
      in if d < 1 / 2 then f else if 1 / 2 < d then f + 1 else if even f then f else f + 1)"

definition round32 :: "real \<Rightarrow> float" where
  "round32 x =
     (let a = \<bar>x\<bar>; q = quantum a; m = round_half_even (a / q)
      in if m = 0 then signed_zero (x < 0)
         else if 2 ^ 128 \<le> of_int m * q then Infinity (x < 0)
         else Finite (sgn x * of_int m * q))"

text \<open>The comparison \<^verbatim>\<open>a < b\<close>: false when an operand is a NaN, and the two zeros are equal.\<close>

fun flt :: "float \<Rightarrow> float \<Rightarrow> bool" where
  "flt NaN b = False"
| "flt a NaN = False"
| "flt (Infinity s) (Infinity t) = (s \<and> \<not> t)"
| "flt (Infinity s) b = s"
| "flt a (Infinity t) = (\<not> t)"
| "flt a b = (fval a < fval b)"

fun fneg :: "float \<Rightarrow> float" where
  "fneg (Finite x) = (if x = 0 then NegZero else Finite (- x))"
| "fneg NegZero = Finite 0"
| "fneg (Infinity s) = Infinity (\<not> s)"
| "fneg NaN = NaN"

text \<open>\<^verbatim>\<open>std::abs\<close> on a float clears the sign.\<close>

fun fabs :: "float \<Rightarrow> float" where
  "fabs (Finite x) = Finite \<bar>x\<bar>"
| "fabs NegZero = Finite 0"
| "fabs (Infinity s) = Infinity False"
| "fabs NaN = NaN"

text \<open>The sum: an exact zero sum of two finite values is the positive zero, unless both are
  the negative zero.\<close>

fun fadd :: "float \<Rightarrow> float \<Rightarrow> float" where
  "fadd NaN b = NaN"
| "fadd a NaN = NaN"
| "fadd (Infinity s) (Infinity t) = (if s = t then Infinity s else NaN)"
| "fadd (Infinity s) b = Infinity s"
| "fadd a (Infinity t) = Infinity t"
| "fadd NegZero NegZero = NegZero"
| "fadd NegZero (Finite b) = Finite b"
| "fadd (Finite a) NegZero = Finite a"
| "fadd (Finite a) (Finite b) = round32 (a + b)"

definition fsub :: "float \<Rightarrow> float \<Rightarrow> float" where
  "fsub a b = fadd a (fneg b)"

text \<open>The quotient: its sign is the exclusive or of the signs of the operands.\<close>

fun fdiv :: "float \<Rightarrow> float \<Rightarrow> float" where
  "fdiv NaN b = NaN"
| "fdiv a NaN = NaN"
| "fdiv (Infinity s) (Infinity t) = NaN"
| "fdiv (Infinity s) b = Infinity (s \<noteq> sign_bit b)"
| "fdiv a (Infinity t) = signed_zero (sign_bit a \<noteq> t)"
| "fdiv a b =
     (if is_zero b then (if is_zero a then NaN else Infinity (sign_bit a \<noteq> sign_bit b))
      else if is_zero a then signed_zero (sign_bit a \<noteq> sign_bit b)
      else round32 (fval a / fval b))"

text \<open>\<^verbatim>\<open>std::max<float>(a, b)\<close> is \<^verbatim>\<open>(a < b) ? b : a\<close>.\<close>

definition std_max :: "float \<Rightarrow> float \<Rightarrow> float" where
  "std_max a b = (if flt a b then b else a)"

text \<open>The conversion of a \<^verbatim>\<open>size_t\<close> to \<^verbatim>\<open>float\<close>.\<close>

definition float_of_size :: "nat \<Rightarrow> float" where
  "float_of_size n = round32 (real n)"

section \<open>The decision-tree demo: data model\<close>

text \<open>
  The development embeds \<^verbatim>\<open>demo.cpp\<close>: the CSV loader, the configuration of the
  columns, the metrics routine \<^verbatim>\<open>test_tree\<close> and the loop of \<^verbatim>\<open>main\<close>.
  A C++ \<^verbatim>\<open>float\<close> is a value of the type \<open>float\<close>, and the arithmetic of the metrics is the
  rounded arithmetic above; a C++ \<^verbatim>\<open>int\<close> is an integer, as the program does no arithmetic
  on one. Every exception and every undefined operation of the C++ code is a value of the
  type \<open>error\<close>.
\<close>

datatype error =
    OutOfRange              \<comment> \<open>\<^verbatim>\<open>operator[]\<close> of a vector beyond its size (undefined in C++)\<close>
  | NullString              \<comment> \<open>\<^verbatim>\<open>std::string\<close> built from a null pointer (undefined in C++)\<close>
  | BadLexicalCast          \<comment> \<open>\<^verbatim>\<open>boost::bad_lexical_cast\<close>\<close>
  | TypeMismatchError
  | InsufficientDataError
  | NotTrainedError

text \<open>
  Modelled from the spec: the class \<^verbatim>\<open>basic_tree::VALUE\<close> of the header
  \<^verbatim>\<open>basic_tree.h\<close>, which is not among the sources. It is a discriminated scalar,
  \<open>Category\<close> of an int with discriminant 0 or \<open>Measurement\<close> of a float with discriminant
  1, and reading the accessor of the other variant fails with \<open>TypeMismatchError\<close>.
\<close>

datatype VALUE = Category int | Measurement float

fun VALUE_dtype :: "VALUE \<Rightarrow> int" where
  "VALUE_dtype (Category c) = 0"
| "VALUE_dtype (Measurement x) = 1"

fun VALUE_i :: "VALUE \<Rightarrow> error + int" where
  "VALUE_i (Category c) = Inr c"
| "VALUE_i (Measurement x) = Inl TypeMismatchError"

fun VALUE_f :: "VALUE \<Rightarrow> error + float" where
  "VALUE_f (Measurement x) = Inr x"
| "VALUE_f (Category c) = Inl TypeMismatchError"

type_synonym row = "VALUE list"
type_synonym dataset = "row list"

text \<open>
  A prediction is a \<^verbatim>\<open>std::map<int, float>\<close>: the list of its entries in the order
  in which the map is iterated, by ascending key, every key once.
\<close>

type_synonym prediction = "(int \<times> float) list"

definition map_ordered :: "('k::linorder \<times> 'v) list \<Rightarrow> bool" where
  "map_ordered m \<longleftrightarrow> sorted (map fst m) \<and> distinct (map fst m)"

text \<open>\<^verbatim>\<open>v[n]\<close> on a vector: defined only below the size.\<close>

definition vec_index :: "'a list \<Rightarrow> nat \<Rightarrow> error + 'a" where
  "vec_index xs n = (if n < length xs then Inr (xs ! n) else Inl OutOfRange)"

text \<open>\<^verbatim>\<open>m[k]\<close> on a map of floats: the stored value, or the value-initialised \<^verbatim>\<open>0.0f\<close> that
  \<^verbatim>\<open>operator[]\<close> inserts for a missing key.\<close>

definition map_subscript :: "prediction \<Rightarrow> int \<Rightarrow> float" where
  "map_subscript m k = (case map_of m k of None \<Rightarrow> Finite 0 | Some v \<Rightarrow> v)"

section \<open>The metrics routine\<close>

text \<open>The lines the program prints, each with the values that are passed to the stream.\<close>

datatype stdout_line =
    INFO nat nat        \<comment> \<open>\<^verbatim>\<open>INFO: train n, test m\<close>\<close>
  | MaxDepth int        \<comment> \<open>\<^verbatim>\<open>max depth:d\<close>\<close>
  | EvaluateTrainset    \<comment> \<open>\<^verbatim>\<open>-------evaluate trainset----------\<close>\<close>
  | EvaluateTestset     \<comment> \<open>\<^verbatim>\<open>-------evaluate testset----------\<close>\<close>
  | REC float           \<comment> \<open>\<^verbatim>\<open>REC: x\<close>\<close>
  | MAPD float          \<comment> \<open>\<^verbatim>\<open>MAPD: x\<close>\<close>

text \<open>The inner loop of the classification branch: \<open>best\<close> is the pair
  \<^verbatim>\<open>(pred_c, pred_prob)\<close>, which starts at \<open>(-1, -1)\<close>, and the test is
  \<^verbatim>\<open>itr.second > pred_prob\<close>.\<close>

definition argmax_step :: "int \<times> float \<Rightarrow> int \<times> float \<Rightarrow> int \<times> float" where
  "argmax_step itr best = (if flt (snd best) (snd itr) then itr else best)"

definition pred_class :: "prediction \<Rightarrow> int" where
  "pred_class m = fst (fold argmax_step m (-1, Finite (-1)))"

text \<open>The loop of the classification branch: \<open>recalling\<close> is a \<^verbatim>\<open>float\<close>, and
  \<^verbatim>\<open>recalling += 1\<close> is a float addition.\<close>

function recall_loop :: "prediction list \<Rightarrow> dataset \<Rightarrow> nat \<Rightarrow> float \<Rightarrow> error + float" where
  "recall_loop preds X k recalling =
     (if k < length preds then
        (case vec_index X k of Inl e \<Rightarrow> Inl e | Inr r \<Rightarrow>
        (case vec_index r 0 of Inl e \<Rightarrow> Inl e | Inr v \<Rightarrow>
        (case VALUE_i v of Inl e \<Rightarrow> Inl e | Inr c \<Rightarrow>
           recall_loop preds X (k + 1)
             (if pred_class (preds ! k) = c then fadd recalling (Finite 1) else recalling))))
      else Inr recalling)"
  by pat_completeness auto
termination
  by (relation "measure (\<lambda>(preds, X, k, recalling). length preds - k)") auto

declare recall_loop.simps [simp del]

text \<open>The denominator \<^verbatim>\<open>std::max<float>(1e-5, y)\<close>: the literal is a \<^verbatim>\<open>double\<close> that the call
  converts to \<^verbatim>\<open>float\<close>.\<close>

definition float_1e_5 :: float where
  "float_1e_5 = round32 (1 / 100000)"

definition mapd_denominator :: "float \<Rightarrow> float" where
  "mapd_denominator y = std_max float_1e_5 y"

text \<open>The loop of the regression branch: \<open>acc\<close> is the \<^verbatim>\<open>float\<close> variable \<^verbatim>\<open>MAPD\<close>.\<close>

function mapd_loop :: "prediction list \<Rightarrow> dataset \<Rightarrow> nat \<Rightarrow> float \<Rightarrow> error + float" where
  "mapd_loop preds X k acc =
     (if k < length preds then
        (case vec_index X k of Inl e \<Rightarrow> Inl e | Inr r \<Rightarrow>
        (case vec_index r 0 of Inl e \<Rightarrow> Inl e | Inr v \<Rightarrow>
        (case VALUE_f v of Inl e \<Rightarrow> Inl e | Inr y \<Rightarrow>
           mapd_loop preds X (k + 1)
             (fadd acc (fdiv (fabs (fsub (map_subscript (preds ! k) 0) y)) (mapd_denominator y))))))
      else Inr acc)"
  by pat_completeness auto
termination
  by (relation "measure (\<lambda>(preds, X, k, acc). length preds - k)") auto

declare mapd_loop.simps [simp del]

text \<open>\<^verbatim>\<open>test_tree\<close>: \<open>Evaluate\<close> is the member function of the tree class, whose code is
  not among the sources; the result is what the routine writes to the standard output. In
  the two quotients the size of \<open>X\<close> is converted to \<^verbatim>\<open>float\<close>.\<close>

definition test_tree ::
  "('t \<Rightarrow> dataset \<Rightarrow> error + prediction list) \<Rightarrow> 't \<Rightarrow> dataset \<Rightarrow> error + stdout_line list" where
  "test_tree Evaluate tree X =
     (case Evaluate tree X of Inl e \<Rightarrow> Inl e | Inr preds \<Rightarrow>
     (case vec_index X 0 of Inl e \<Rightarrow> Inl e | Inr r0 \<Rightarrow>
     (case vec_index r0 0 of Inl e \<Rightarrow> Inl e | Inr v0 \<Rightarrow>
        if VALUE_dtype v0 = 0 then
          (case recall_loop preds X 0 (Finite 0) of Inl e \<Rightarrow> Inl e
           | Inr recalling \<Rightarrow> Inr [REC (fdiv recalling (float_of_size (length X)))])
        else if VALUE_dtype v0 = 1 then
          (case mapd_loop preds X 0 (Finite 0) of Inl e \<Rightarrow> Inl e
           | Inr acc \<Rightarrow> Inr [MAPD (fdiv acc (float_of_size (length X)))])
        else Inr [])))"

section \<open>Specification-side notions for the metrics\<close>

text \<open>The arg-max class of a prediction, in the words of the specification: a key whose
  probability no other key exceeds; among keys of equal probability, the smallest.\<close>

definition is_arg_max :: "prediction \<Rightarrow> int \<Rightarrow> bool" where
  "is_arg_max m c \<longleftrightarrow>
     (\<exists>(c0, p) \<in> set m. c0 = c \<and>
        (\<forall>(c', p') \<in> set m. fval p' < fval p \<or> (fval p' = fval p \<and> c \<le> c')))"

text \<open>What a classification prediction is: a non-empty map, iterated by ascending key,
  whose values are finite numbers above the initial \<^verbatim>\<open>pred_prob\<close> of \<open>-1\<close>, as probabilities
  are.\<close>

definition probabilities :: "prediction \<Rightarrow> bool" where
  "probabilities m \<longleftrightarrow>
     m \<noteq> [] \<and> map_ordered m \<and> (\<forall>(c, p) \<in> set m. is_finite p \<and> -1 < fval p)"

text \<open>The invariant of the arg-max loop over finite values: \<open>r\<close> is the start value \<open>b\<close>, or
  the first entry of \<open>m\<close> whose value is the largest and exceeds that of \<open>b\<close>.\<close>

definition pv :: "int \<times> float \<Rightarrow> real" where
  "pv x = fval (snd x)"

definition first_max :: "prediction \<Rightarrow> int \<times> float \<Rightarrow> int \<times> float \<Rightarrow> bool" where
  "first_max m b r \<longleftrightarrow>
     (r = b \<and> (\<forall>x \<in> set m. pv x \<le> pv b)) \<or>
     (\<exists>xs ys. m = xs @ r # ys \<and> pv b < pv r \<and>
        (\<forall>x \<in> set xs. pv x < pv r) \<and> (\<forall>y \<in> set ys. pv y \<le> pv r))"

text \<open>A row counts as correct when its true class, in column 0, is the arg-max class.\<close>

definition counted_correct :: "prediction \<Rightarrow> row \<Rightarrow> bool" where
  "counted_correct m r \<longleftrightarrow> (case r of Category c # rest \<Rightarrow> is_arg_max m c | _ \<Rightarrow> False)"

text \<open>Every row of a classification dataset has a \<open>Category\<close> in column 0.\<close>

definition classification_rows :: "dataset \<Rightarrow> bool" where
  "classification_rows X \<longleftrightarrow> (\<forall>r \<in> set X. case r of Category c # rest \<Rightarrow> True | _ \<Rightarrow> False)"

text \<open>The number of rows that count as correct.\<close>

definition correct_rows :: "prediction list \<Rightarrow> dataset \<Rightarrow> nat" where
  "correct_rows preds X =
     length (filter (\<lambda>k. counted_correct (preds ! k) (X ! k)) [0..<length X])"

text \<open>A small classification dataset and predictions for it.\<close>

definition demo_rows :: dataset where
  "demo_rows =
     [[Category 1, Measurement (Finite 2)], [Category 0, Measurement (Finite 5)],
      [Category 1, Measurement (Finite 7)]]"

definition demo_preds :: "prediction list" where
  "demo_preds =
     [[(0, Finite (1 / 4)), (1, Finite (3 / 4))], [(0, Finite (1 / 2)), (1, Finite (1 / 2))],
      [(0, Finite 1)]]"

definition demo_evaluate :: "unit \<Rightarrow> dataset \<Rightarrow> error + prediction list" where
  "demo_evaluate tree X = Inr demo_preds"



text \<open>The true measurement of a row is \<open>y\<close>.\<close>

definition has_measurement :: "row \<Rightarrow> float \<Rightarrow> bool" where
  "has_measurement r y \<longleftrightarrow> (case r of Measurement y' # rest \<Rightarrow> y' = y | _ \<Rightarrow> False)"

text \<open>The prediction at key 0 is \<open>p\<close>: the map holds \<open>p\<close> under the key 0, or it has no
  key 0 and \<open>p\<close> is the zero that reading the key puts there.\<close>

definition at_key_0 :: "prediction \<Rightarrow> float \<Rightarrow> bool" where
  "at_key_0 m p \<longleftrightarrow> (0, p) \<in> set m \<or> (0 \<notin> fst ` set m \<and> p = Finite 0)"

text \<open>The absolute deviation of a prediction \<open>p\<close> from the true measurement \<open>y\<close>, over the
  maximum of the float \<open>1e-5\<close> and \<open>y\<close>, and the sum of a list of floats from the left, all in
  float arithmetic.\<close>

definition percentage_deviation :: "float \<Rightarrow> float \<Rightarrow> float" where
  "percentage_deviation p y = fdiv (fabs (fsub p y)) (std_max float_1e_5 y)"

definition float_sum :: "float list \<Rightarrow> float" where
  "float_sum xs = foldl fadd (Finite 0) xs"

text \<open>The two metrics, as lines of the output.\<close>

fun is_REC :: "stdout_line \<Rightarrow> bool" where
  "is_REC (REC x) = True"
| "is_REC l = False"

fun is_MAPD :: "stdout_line \<Rightarrow> bool" where
  "is_MAPD (MAPD x) = True"
| "is_MAPD l = False"

text \<open>A small regression dataset and predictions for it; a dataset of one row with the
  measurement 3 predicted as 1.\<close>

definition price_rows :: dataset where
  "price_rows = [[Measurement (Finite 10), Category 3], [Measurement (Finite 0), Category 4]]"

definition price_preds :: "prediction list" where
  "price_preds = [[(0, Finite 12)], [(0, Finite 1)]]"

definition price_evaluate :: "unit \<Rightarrow> dataset \<Rightarrow> error + prediction list" where
  "price_evaluate tree X = Inr price_preds"


section \<open>The CSV loader\<close>

record DATA_CONFIG =
  dtype :: string   \<comment> \<open>\<^verbatim>\<open>"value"\<close> or \<^verbatim>\<open>"class"\<close>\<close>
  pos :: int

text \<open>A \<^verbatim>\<open>std::map<std::string, DATA_CONFIG>\<close> is the list of its entries, every key once:
  \<^verbatim>\<open>find\<close> is \<open>map_of\<close>, \<^verbatim>\<open>size\<close> is \<open>length\<close>, and \<^verbatim>\<open>insert\<close> leaves the map as
  it is when the key is there already.\<close>

type_synonym data_config = "(string \<times> DATA_CONFIG) list"

definition map_insert :: "'k \<times> 'v \<Rightarrow> ('k \<times> 'v) list \<Rightarrow> ('k \<times> 'v) list" where
  "map_insert kv m = (if fst kv \<in> fst ` set m then m else m @ [kv])"

definition GetDataConfig :: "data_config \<Rightarrow> data_config" where
  "GetDataConfig data_config =
     fold map_insert
       [(''SalePrice'', \<lparr>dtype = ''value'', pos = 0\<rparr>),
        (''YearBuilt'', \<lparr>dtype = ''value'', pos = 1\<rparr>),
        (''YearRemodAdd'', \<lparr>dtype = ''value'', pos = 2\<rparr>),
        (''Neighborhood'', \<lparr>dtype = ''value'', pos = 3\<rparr>),
        (''LotArea'', \<lparr>dtype = ''value'', pos = 4\<rparr>),
        (''LotShape'', \<lparr>dtype = ''class'', pos = 5\<rparr>),
        (''LotConfig'', \<lparr>dtype = ''class'', pos = 6\<rparr>),
        (''HouseStyle'', \<lparr>dtype = ''class'', pos = 7\<rparr>),
        (''GarageArea'', \<lparr>dtype = ''value'', pos = 8\<rparr>)]
       data_config"

text \<open>What the loader takes from outside this file: the two instances of
  \<^verbatim>\<open>boost::lexical_cast\<close> (\<open>None\<close> when the cast throws) and the value of a
  default-constructed \<^verbatim>\<open>VALUE\<close>.\<close>

record externals =
  lexical_cast_float :: "string \<Rightarrow> float option"
  lexical_cast_int :: "string \<Rightarrow> int option"
  VALUE_default :: VALUE

subsection \<open>The input stream\<close>

text \<open>An open \<^verbatim>\<open>std::ifstream\<close>: the characters not read yet and two of its state bits.\<close>

record ifstream =
  unread :: string
  eofbit :: bool
  failbit :: bool

text \<open>The extraction of \<^verbatim>\<open>getline\<close>, which tests in this order: the end of the input (sets
  \<^verbatim>\<open>eofbit\<close>), the delimiter (extracted, not stored), the room left in the buffer (sets
  \<^verbatim>\<open>failbit\<close>). The result is the characters stored, the input left and the two bits.\<close>

fun extract_line :: "nat \<Rightarrow> string \<Rightarrow> string \<times> string \<times> bool \<times> bool" where
  "extract_line room [] = ([], [], True, False)"
| "extract_line room (c # cs) =
     (if c = CHR 0x0A then ([], cs, False, False)
      else (case room of
              0 \<Rightarrow> ([], c # cs, False, True)
            | Suc room' \<Rightarrow>
                (case extract_line room' cs of (s, rest, e, f) \<Rightarrow> (c # s, rest, e, f))))"

text \<open>\<^verbatim>\<open>fs.getline(buffer, n)\<close> for \<open>n > 0\<close>: nothing is read from a stream that is not
  good, and a call that extracts no character sets \<^verbatim>\<open>failbit\<close>.\<close>

definition getline :: "nat \<Rightarrow> ifstream \<Rightarrow> string \<times> ifstream" where
  "getline n fs =
     (if eofbit fs \<or> failbit fs then ([], fs\<lparr>failbit := True\<rparr>)
      else (case extract_line (n - 1) (unread fs) of (s, rest, e, f) \<Rightarrow>
              (s, \<lparr>unread = rest, eofbit = e,
                   failbit = (f \<or> length rest = length (unread fs))\<rparr>)))"

text \<open>The \<^verbatim>\<open>std::string\<close> built from the buffer ends at the first NUL character; it is
  empty exactly when \<^verbatim>\<open>line_content[0] == '\0'\<close>.\<close>

definition c_string :: "string \<Rightarrow> string" where
  "c_string buffer = takeWhile (\<lambda>c. c \<noteq> CHR 0x00) buffer"

subsection \<open>Splitting and trimming\<close>

text \<open>\<^verbatim>\<open>boost::split\<close> at commas with \<^verbatim>\<open>token_compress_on\<close>: a run of commas separates
  two tokens, and there is a token, possibly empty, before the first run and after the last.\<close>

fun split_compress :: "string \<Rightarrow> string list" where
  "split_compress [] = [[]]"
| "split_compress (c # cs) =
     (if c = CHR '','' then
        (case cs of
           [] \<Rightarrow> [] # split_compress cs
         | d # ds \<Rightarrow> if d = CHR '','' then split_compress cs else [] # split_compress cs)
      else (case split_compress cs of
              [] \<Rightarrow> [[c]]
            | t # ts \<Rightarrow> (c # t) # ts))"

definition is_trimmed_char :: "char \<Rightarrow> bool" where
  "is_trimmed_char c \<longleftrightarrow> c = CHR 0x0D \<or> c = CHR 0x0A \<or> c = CHR 0x09 \<or> c = CHR '' ''"

definition trim_if :: "string \<Rightarrow> string" where
  "trim_if str = rev (dropWhile is_trimmed_char (rev (dropWhile is_trimmed_char str)))"

subsection \<open>One row\<close>

text \<open>\<^verbatim>\<open>data[p] = val\<close> for an \<^verbatim>\<open>int\<close> index.\<close>

definition vec_assign :: "'a list \<Rightarrow> int \<Rightarrow> 'a \<Rightarrow> error + 'a list" where
  "vec_assign xs p v =
     (if 0 \<le> p \<and> nat p < length xs then Inr (xs[nat p := v]) else Inl OutOfRange)"

text \<open>The value built from a cell: a float for the kind \<^verbatim>\<open>"value"\<close>, an int otherwise.\<close>

definition cell_value :: "externals \<Rightarrow> DATA_CONFIG \<Rightarrow> string \<Rightarrow> error + VALUE" where
  "cell_value ext dc cell =
     (if dtype dc = ''value'' then
        (case lexical_cast_float ext cell of
           None \<Rightarrow> Inl BadLexicalCast | Some x \<Rightarrow> Inr (Measurement x))
      else
        (case lexical_cast_int ext cell of
           None \<Rightarrow> Inl BadLexicalCast | Some n \<Rightarrow> Inr (Category n)))"

text \<open>The loop over the cells of a line, from column \<open>col\<close> on.\<close>

function fill_row ::
  "externals \<Rightarrow> data_config \<Rightarrow> string list \<Rightarrow> string list \<Rightarrow> nat \<Rightarrow> row \<Rightarrow> error + row" where
  "fill_row ext data_config col2head splits col data =
     (if col < length splits then
        (case vec_index col2head col of Inl e \<Rightarrow> Inl e | Inr head \<Rightarrow>
        (case map_of data_config head of
           None \<Rightarrow> fill_row ext data_config col2head splits (col + 1) data
         | Some dc \<Rightarrow>
            (case cell_value ext dc (splits ! col) of Inl e \<Rightarrow> Inl e | Inr val \<Rightarrow>
            (case vec_assign data (pos dc) val of Inl e \<Rightarrow> Inl e | Inr data' \<Rightarrow>
               fill_row ext data_config col2head splits (col + 1) data'))))
      else Inr data)"
  by pat_completeness auto
termination
  by (relation "measure (\<lambda>(ext, data_config, col2head, splits, col, data). length splits - col)")
    auto

declare fill_row.simps [simp del]

subsection \<open>One file\<close>

lemma extract_line_length:
  "extract_line room cs = (s, rest, e, f) \<Longrightarrow> length s + length rest \<le> length cs"
proof (induction room cs arbitrary: s rest e f rule: extract_line.induct)
  case (1 room)
  then show ?case by simp
next
  case (2 room c cs)
  show ?case
  proof (cases "c = CHR 0x0A")
    case True
    with "2.prems" show ?thesis by simp
  next
    case False
    show ?thesis
    proof (cases room)
      case 0
      with False "2.prems" show ?thesis by simp
    next
      case (Suc room')
      obtain s' rest' e' f' where ex: "extract_line room' cs = (s', rest', e', f')"
        by (cases "extract_line room' cs") auto
      from "2.IH" [OF False Suc ex] have "length s' + length rest' \<le> length cs" .
      with False Suc ex "2.prems" show ?thesis by auto
    qed
  qed
qed

lemma getline_consumes:
  assumes "fst (getline n fs) \<noteq> []"
  shows "length (unread (snd (getline n fs))) < length (unread fs)"
proof (cases "eofbit fs \<or> failbit fs")
  case True
  with assms show ?thesis by (simp add: getline_def)
next
  case False
  obtain s rest e f where ex: "extract_line (n - 1) (unread fs) = (s, rest, e, f)"
    by (cases "extract_line (n - 1) (unread fs)") auto
  from False ex assms have "s \<noteq> []" by (simp add: getline_def)
  with extract_line_length [OF ex] have "length rest < length (unread fs)"
    by (cases s) simp_all
  with False ex show ?thesis by (simp add: getline_def)
qed

text \<open>The \<^verbatim>\<open>while (!fs.eof())\<close> loop of \<^verbatim>\<open>load_data_from_one_file\<close>.\<close>

function read_loop ::
  "externals \<Rightarrow> data_config \<Rightarrow> nat \<Rightarrow> ifstream \<Rightarrow> string list \<Rightarrow> dataset \<Rightarrow> error + dataset" where
  "read_loop ext data_config columns fs col2head data_all =
     (if eofbit fs then Inr data_all
      else
        (let line_content = fst (getline 2048 fs);
             fs' = snd (getline 2048 fs);
             line = c_string line_content
         in if line = [] then Inr data_all
            else
              (let splits = map trim_if (split_compress line)
               in if col2head = [] then
                    read_loop ext data_config columns fs' (col2head @ splits) data_all
                  else
                    (case fill_row ext data_config col2head splits 0
                            (replicate columns (VALUE_default ext)) of
                       Inl e \<Rightarrow> Inl e
                     | Inr data \<Rightarrow>
                         read_loop ext data_config columns fs' col2head (data_all @ [data])))))"
  by pat_completeness auto
termination
proof (relation "measure (\<lambda>(ext, data_config, columns, fs, col2head, data_all). length (unread fs))")
  show "wf (measure (\<lambda>(ext, data_config, columns, fs, col2head, data_all). length (unread fs)))"
    by simp
next
  fix ext :: externals and data_config :: data_config and columns :: nat and fs :: ifstream
    and col2head :: "string list" and data_all :: dataset
    and line_content fs' line splits
  assume "line_content = fst (getline 2048 fs)" "fs' = snd (getline 2048 fs)"
    "line = c_string line_content" "line \<noteq> []"
  then have "fst (getline 2048 fs) \<noteq> []" and fs': "fs' = snd (getline 2048 fs)"
    by (auto simp: c_string_def)
  then have "length (unread fs') < length (unread fs)"
    using getline_consumes [of 2048 fs] by simp
  then show "((ext, data_config, columns, fs', col2head @ splits, data_all),
              (ext, data_config, columns, fs, col2head, data_all))
             \<in> measure (\<lambda>(ext, data_config, columns, fs, col2head, data_all). length (unread fs))"
    by simp
next
  fix ext :: externals and data_config :: data_config and columns :: nat and fs :: ifstream
    and col2head :: "string list" and data_all :: dataset
    and line_content fs' line splits and data :: row
  assume "line_content = fst (getline 2048 fs)" "fs' = snd (getline 2048 fs)"
    "line = c_string line_content" "line \<noteq> []"
  then have "fst (getline 2048 fs) \<noteq> []" and fs': "fs' = snd (getline 2048 fs)"
    by (auto simp: c_string_def)
  then have "length (unread fs') < length (unread fs)"
    using getline_consumes [of 2048 fs] by simp
  then show "((ext, data_config, columns, fs', col2head, data_all @ [data]),
              (ext, data_config, columns, fs, col2head, data_all))
             \<in> measure (\<lambda>(ext, data_config, columns, fs, col2head, data_all). length (unread fs))"
    by simp
qed

declare read_loop.simps [simp del]

text \<open>The file system: the content of the file at a path, \<open>None\<close> when it cannot be opened.\<close>

type_synonym file_system = "string \<Rightarrow> string option"

definition load_data_from_one_file ::
  "externals \<Rightarrow> file_system \<Rightarrow> string \<Rightarrow> data_config \<Rightarrow> error + dataset" where
  "load_data_from_one_file ext files csv_file data_config =
     (let columns = length data_config
      in case files csv_file of
           None \<Rightarrow> Inr []
         | Some text \<Rightarrow>
             read_loop ext data_config columns
               \<lparr>unread = text, eofbit = False, failbit = False\<rparr> [] [])"

text \<open>\<^verbatim>\<open>load_data\<close>: the return code, the two datasets and the line it prints.\<close>

definition load_data ::
  "externals \<Rightarrow> file_system \<Rightarrow> string \<Rightarrow> data_config \<Rightarrow>
     error + (int \<times> dataset \<times> dataset \<times> stdout_line list)" where
  "load_data ext files data_dir data_config =
     (let train_file = data_dir @ ''/train.csv'';
          test_file = data_dir @ ''/test.csv''
      in case load_data_from_one_file ext files train_file data_config of
           Inl e \<Rightarrow> Inl e
         | Inr train_data \<Rightarrow>
            (case load_data_from_one_file ext files test_file data_config of
               Inl e \<Rightarrow> Inl e
             | Inr test_data \<Rightarrow>
                 Inr (0, train_data, test_data,
                      [INFO (length train_data) (length test_data)])))"

section \<open>The program\<close>

text \<open>
  Modelled from the spec: the classes \<^verbatim>\<open>basic_tree::CTrainParam\<close> and \<^verbatim>\<open>basic_tree::CTree\<close>
  of the header \<^verbatim>\<open>basic_tree.h\<close>, which is not among the sources. The parameters have
  the three fields that \<^verbatim>\<open>main\<close> assigns, and whatever else the class holds is the
  extension of the record. Of the tree only the interface is fixed: a constructor,
  \<^verbatim>\<open>Train\<close>, which changes the tree alone and may fail, and \<^verbatim>\<open>Evaluate\<close>, which changes
  nothing, returns the predictions and may fail.
\<close>

record CTrainParam =
  loss_type :: string
  min_std :: real
  max_depth :: int

record ('t, 'p) CTree =
  CTree_new :: 't
  Train :: "'t \<Rightarrow> dataset \<Rightarrow> 'p CTrainParam_scheme \<Rightarrow> error + 't"
  Evaluate :: "'t \<Rightarrow> dataset \<Rightarrow> error + prediction list"

text \<open>What a run of the program does, in order: the lines it prints and its calls of
  \<^verbatim>\<open>Train\<close>, each with the tree it is called on, the dataset and the parameters.\<close>

datatype ('t, 'p) event =
    Stdout stdout_line
  | Call_Train 't dataset "'p CTrainParam_scheme"

text \<open>The loop over the depths: the events so far are \<open>events\<close>, and the result is the events
  of the run with the exit code, or with the error that ended the run.\<close>

fun main_loop ::
  "('t, 'p) CTree \<Rightarrow> dataset \<Rightarrow> dataset \<Rightarrow> int list \<Rightarrow> 'p CTrainParam_scheme \<Rightarrow>
     ('t, 'p) event list \<Rightarrow> ('t, 'p) event list \<times> (error + int)" where
  "main_loop tree_class trainset testset [] param events = (events, Inr 0)"
| "main_loop tree_class trainset testset (depth # depths) param events =
     (let tree_object = CTree_new tree_class;
          param = param\<lparr>max_depth := depth\<rparr>;
          events = events @ [Call_Train tree_object trainset param]
      in case Train tree_class tree_object trainset param of
           Inl e \<Rightarrow> (events, Inl e)
         | Inr tree_object \<Rightarrow>
            (let events = events @ [Stdout (MaxDepth (max_depth param)), Stdout EvaluateTrainset]
             in case test_tree (Evaluate tree_class) tree_object trainset of
                  Inl e \<Rightarrow> (events, Inl e)
                | Inr printed \<Rightarrow>
                   (let events = events @ map Stdout printed @ [Stdout EvaluateTestset]
                    in case test_tree (Evaluate tree_class) tree_object testset of
                         Inl e \<Rightarrow> (events, Inl e)
                       | Inr printed \<Rightarrow>
                           main_loop tree_class trainset testset depths param
                             (events @ map Stdout printed))))"

text \<open>\<^verbatim>\<open>main\<close>: \<open>getenv\<close> is the environment of the process (\<open>None\<close> for a variable that is
  not set, where \<^verbatim>\<open>getenv\<close> returns a null pointer), \<open>param\<close> the default-constructed
  parameters.\<close>

definition main ::
  "(string \<Rightarrow> string option) \<Rightarrow> externals \<Rightarrow> file_system \<Rightarrow> ('t, 'p) CTree \<Rightarrow>
     'p CTrainParam_scheme \<Rightarrow> ('t, 'p) event list \<times> (error + int)" where
  "main getenv ext files tree_class param =
     (let data_config = GetDataConfig []
      in case getenv ''DATASET_ROOT_DIR'' of
           None \<Rightarrow> ([], Inl NullString)
         | Some root_env \<Rightarrow>
            (let root_dir = root_env @ ''house_price'' @ [CHR 0x5C]
             in case load_data ext files root_dir data_config of
                  Inl e \<Rightarrow> ([], Inl e)
                | Inr (rc, trainset, testset, printed) \<Rightarrow>
                   (let param = param\<lparr>loss_type := ''gini''\<rparr>;
                        param = param\<lparr>min_std := 1 / 10\<rparr>
                    in main_loop tree_class trainset testset [3, 10, 50] param
                         (map Stdout printed))))"

section \<open>Specification-side notions for the program\<close>

text \<open>The calls of \<^verbatim>\<open>Train\<close> among the events of a run.\<close>

fun train_calls :: "('t, 'p) event list \<Rightarrow> ('t \<times> dataset \<times> 'p CTrainParam_scheme) list" where
  "train_calls [] = []"
| "train_calls (Stdout l # es) = train_calls es"
| "train_calls (Call_Train t X p # es) = (t, X, p) # train_calls es"

text \<open>A line that reports a metric.\<close>

definition is_metric :: "stdout_line \<Rightarrow> bool" where
  "is_metric l \<longleftrightarrow> is_REC l \<or> is_MAPD l"

text \<open>The events of one training run at a depth: the call of \<^verbatim>\<open>Train\<close> on a new tree,
  then the depth and the metric lines \<open>a\<close> for the training set and \<open>b\<close> for the test set.\<close>

definition run_events ::
  "('t, 'p) CTree \<Rightarrow> dataset \<Rightarrow> 'p CTrainParam_scheme \<Rightarrow> int \<Rightarrow> stdout_line \<Rightarrow> stdout_line \<Rightarrow>
     ('t, 'p) event list" where
  "run_events tree_class trainset param depth a b =
     [Call_Train (CTree_new tree_class) trainset (param\<lparr>max_depth := depth\<rparr>),
      Stdout (MaxDepth depth), Stdout EvaluateTrainset, Stdout a, Stdout EvaluateTestset, Stdout b]"

text \<open>The lines \<open>a\<close> and \<open>b\<close> are the metrics of the tree trained at the depth, over the
  training set and over the test set.\<close>

definition run_metrics ::
  "('t, 'p) CTree \<Rightarrow> dataset \<Rightarrow> dataset \<Rightarrow> 'p CTrainParam_scheme \<Rightarrow> int \<Rightarrow>
     stdout_line \<Rightarrow> stdout_line \<Rightarrow> bool" where
  "run_metrics tree_class trainset testset param depth a b \<longleftrightarrow>
     (case Train tree_class (CTree_new tree_class) trainset (param\<lparr>max_depth := depth\<rparr>) of
        Inl e \<Rightarrow> False
      | Inr t \<Rightarrow>
          test_tree (Evaluate tree_class) t trainset = Inr [a] \<and> is_metric a \<and>
          test_tree (Evaluate tree_class) t testset = Inr [b] \<and> is_metric b)"

section \<open>A small run of the program\<close>

text \<open>An environment, two files, casts that know the cells of these files, and a tree
  whose prediction is always 12.\<close>


definition demo_getenv :: "string \<Rightarrow> string option" where
  "demo_getenv name = (if name = ''DATASET_ROOT_DIR'' then Some ''data/'' else None)"

definition demo_train_csv :: string where
  "demo_train_csv = ''SalePrice,Street,LotShape'' @ [CHR 0x0A] @ ''10,Pave,3'' @ [CHR 0x0A] @ ''0,Grvl,4'' @ [CHR 0x0A]"

definition demo_test_csv :: string where
  "demo_test_csv = ''SalePrice,Street,LotShape'' @ [CHR 0x0D, CHR 0x0A] @ '' 10 ,Pave,,3''"

definition demo_files :: file_system where
  "demo_files path =
     (if path = ''data/house_price'' @ [CHR 0x5C] @ ''/train.csv'' then Some demo_train_csv
      else if path = ''data/house_price'' @ [CHR 0x5C] @ ''/test.csv'' then Some demo_test_csv
      else None)"

definition demo_ext :: externals where
  "demo_ext = \<lparr>lexical_cast_float = (\<lambda>s. if s = ''10'' then Some (Finite 10) else if s = ''0'' then Some (Finite 0) else None),
               lexical_cast_int = (\<lambda>s. if s = ''3'' then Some 3 else if s = ''4'' then Some 4 else None),
               VALUE_default = Category 0\<rparr>"

definition demo_tree :: "(nat, unit) CTree" where
  "demo_tree = \<lparr>CTree_new = 0, Train = (\<lambda>t X p. Inr (nat (max_depth p))),
                Evaluate = (\<lambda>t X. Inr (map (\<lambda>r. [(0, Finite 12)]) X))\<rparr>"

definition demo_param :: CTrainParam where
  "demo_param = \<lparr>loss_type = '''', min_std = 0, max_depth = 0\<rparr>"

text \<open>The datasets these files hold, and the events of the run.\<close>

definition demo_trainset :: dataset where
  "demo_trainset =
     [[Measurement (Finite 10), Category 0, Category 0, Category 0, Category 0,
       Category 3, Category 0, Category 0, Category 0],
      [Measurement (Finite 0), Category 0, Category 0, Category 0, Category 0,
       Category 4, Category 0, Category 0, Category 0]]"

definition demo_testset :: dataset where
  "demo_testset =
     [[Measurement (Finite 10), Category 0, Category 0, Category 0, Category 0,
       Category 3, Category 0, Category 0, Category 0]]"

definition demo_events :: "(nat, unit) event list" where
  "demo_events =
     Stdout (INFO 2 1)
     # run_events demo_tree demo_trainset (demo_param\<lparr>loss_type := ''gini'', min_std := 1 / 10\<rparr>) 3
         (MAPD (Finite (4800001 / 8))) (MAPD (Finite (13421773 / 67108864)))
     @ run_events demo_tree demo_trainset (demo_param\<lparr>loss_type := ''gini'', min_std := 1 / 10\<rparr>) 10
         (MAPD (Finite (4800001 / 8))) (MAPD (Finite (13421773 / 67108864)))
     @ run_events demo_tree demo_trainset (demo_param\<lparr>loss_type := ''gini'', min_std := 1 / 10\<rparr>) 50
         (MAPD (Finite (4800001 / 8))) (MAPD (Finite (13421773 / 67108864)))"
text \<open>The lines of a text: its parts between the newline characters.\<close>

fun file_lines :: "string \<Rightarrow> string list" where
  "file_lines [] = [[]]"
| "file_lines (c # cs) =
     (if c = CHR 0x0A then [] # file_lines cs
      else (case file_lines cs of [] \<Rightarrow> [[c]] | l # ls \<Rightarrow> (c # l) # ls))"

text \<open>The lines up to the first empty one, each as the loader sees it: up to its first
  NUL character.\<close>

definition lines_read :: "string \<Rightarrow> string list" where
  "lines_read text = takeWhile (\<lambda>l. l \<noteq> []) (map c_string (file_lines text))"

text \<open>The lines strictly after the first line and strictly before the first empty line.\<close>

definition data_lines :: "string \<Rightarrow> string list" where
  "data_lines text = tl (takeWhile (\<lambda>l. l \<noteq> []) (file_lines text))"

text \<open>The row of a line under a header, and the rows of a list of lines, up to the first
  line that raises.\<close>

definition parse_line :: "externals \<Rightarrow> data_config \<Rightarrow> string list \<Rightarrow> string \<Rightarrow> error + row" where
  "parse_line ext data_config col2head line =
     fill_row ext data_config col2head (map trim_if (split_compress line)) 0
       (replicate (length data_config) (VALUE_default ext))"

fun parse_lines :: "externals \<Rightarrow> data_config \<Rightarrow> string list \<Rightarrow> string list \<Rightarrow> error + dataset" where
  "parse_lines ext data_config col2head [] = Inr []"
| "parse_lines ext data_config col2head (l # ls) =
     (case parse_line ext data_config col2head l of
        Inl e \<Rightarrow> Inl e
      | Inr r \<Rightarrow>
         (case parse_lines ext data_config col2head ls of
            Inl e \<Rightarrow> Inl e
          | Inr rs \<Rightarrow> Inr (r # rs)))"

text \<open>The dataset of a list of lines: the first is the header, every other gives a row.\<close>

definition rows_of_lines :: "externals \<Rightarrow> data_config \<Rightarrow> string list \<Rightarrow> error + dataset" where
  "rows_of_lines ext data_config ls =
     (case ls of
        [] \<Rightarrow> Inr []
      | header # rest \<Rightarrow> parse_lines ext data_config (map trim_if (split_compress header)) rest)"

text \<open>The text with the given lines.\<close>

fun join_lines :: "string list \<Rightarrow> string" where
  "join_lines [] = []"
| "join_lines [l] = l"
| "join_lines (l # l' # ls) = l @ CHR 0x0A # join_lines (l' # ls)"

text \<open>The loop of the loader over lines already cut out of the stream.\<close>

fun consume_lines ::
  "externals \<Rightarrow> data_config \<Rightarrow> string list \<Rightarrow> string list \<Rightarrow> dataset \<Rightarrow> error + dataset" where
  "consume_lines ext data_config [] col2head data_all = Inr data_all"
| "consume_lines ext data_config (line # rest) col2head data_all =
     (if col2head = [] then
        consume_lines ext data_config rest (col2head @ map trim_if (split_compress line)) data_all
      else
        (case parse_line ext data_config col2head line of
           Inl e \<Rightarrow> Inl e
         | Inr data \<Rightarrow> consume_lines ext data_config rest col2head (data_all @ [data])))"

text \<open>A stream just opened on a text.\<close>

definition good_stream :: "string \<Rightarrow> ifstream" where
  "good_stream text = \<lparr>unread = text, eofbit = False, failbit = False\<rparr>"

text \<open>Two files: one with a line of more than 2047 characters, one with a line that
  starts with a NUL character; and the row of the line \<^verbatim>\<open>10,...\<close> under their header.\<close>

definition long_line_csv :: string where
  "long_line_csv = ''SalePrice,Note'' @ [CHR 0x0A] @ ''10,'' @ replicate 2048 (CHR ''x'') @ [CHR 0x0A]
     @ ''0,ok'' @ [CHR 0x0A]"

definition nul_line_csv :: string where
  "nul_line_csv = ''SalePrice,Note'' @ [CHR 0x0A] @ ''10,ok'' @ [CHR 0x0A] @ [CHR 0x00] @ ''0,ok''
     @ [CHR 0x0A] @ ''0,ok'' @ [CHR 0x0A]"

definition long_line_files :: file_system where
  "long_line_files path = Some long_line_csv"

definition nul_line_files :: file_system where
  "nul_line_files path = Some nul_line_csv"

definition row_10 :: row where
  "row_10 = [Measurement (Finite 10), Category 0, Category 0, Category 0, Category 0,
             Category 0, Category 0, Category 0, Category 0]"
section \<open>Specification-side notions for the cells of a file\<close>







section \<open>Facts about the rounding\<close>

lemma floorlog_floor:
  fixes r :: real
  assumes "2 ^ j \<le> r" "r < 2 * 2 ^ j"
  shows "floorlog 2 (nat \<lfloor>r\<rfloor>) = Suc j"
proof -
  have fl: "(2::int) ^ j \<le> \<lfloor>r\<rfloor>" using assms(1) by (simp add: le_floor_iff)
  have "(0::int) \<le> 2 ^ j" by simp
  from this fl have nn: "0 \<le> \<lfloor>r\<rfloor>" by (rule order_trans)
  from fl have lo: "2 ^ j \<le> nat \<lfloor>r\<rfloor>" by (simp add: le_nat_iff)
  have "\<lfloor>r\<rfloor> < 2 ^ Suc j" using assms(2) by (simp add: floor_less_iff)
  then have hi: "nat \<lfloor>r\<rfloor> < 2 ^ Suc j" using nn by (simp add: nat_less_iff)
  from floorlog_ge_SucI [OF lo] floorlog_leI [OF hi] show ?thesis by simp
qed

lemma floorlog_floor_le:
  fixes r :: real
  assumes "r < 2 ^ j"
  shows "floorlog 2 (nat \<lfloor>r\<rfloor>) \<le> j"
proof -
  have "\<lfloor>r\<rfloor> < 2 ^ j" using assms by (simp add: floor_less_iff)
  then have "nat \<lfloor>r\<rfloor> < 2 ^ j" by (cases "0 \<le> \<lfloor>r\<rfloor>") (simp_all add: nat_less_iff)
  then show ?thesis by (intro floorlog_leI) simp_all
qed

lemma binade_eqI:
  assumes "2 ^ j \<le> a * 2 ^ 126" "a * 2 ^ 126 < 2 * 2 ^ j" "j \<le> 253"
  shows "binade a = j"
  unfolding binade_def floorlog_floor [OF assms(1,2)] using assms(3)
  by (simp only: diff_Suc_1 min_absorb2)

lemma binade_le:
  assumes "a * 2 ^ 126 < 2 ^ Suc e"
  shows "binade a \<le> e"
proof -
  have "floorlog 2 (nat \<lfloor>a * 2 ^ 126\<rfloor>) - 1 \<le> e"
    using floorlog_floor_le [OF assms] by (simp only: le_diff_conv Suc_eq_plus1)
  then show ?thesis unfolding binade_def by (rule min.coboundedI2)
qed

lemma binade_zero:
  assumes "a * 2 ^ 126 < 2"
  shows "binade a = 0"
proof -
  have "a * 2 ^ 126 < 2 ^ Suc 0" using assms by (simp only: power_Suc power_0 mult_1_right)
  from binade_le [OF this] show ?thesis by (simp only: le_zero_eq)
qed
lemma round_half_even_of_int: "round_half_even (of_int n) = n"
  by (simp add: round_half_even_def)

lemma round32_eval:
  assumes "2 ^ j \<le> \<bar>x\<bar> * 2 ^ 126" "\<bar>x\<bar> * 2 ^ 126 < 2 * 2 ^ j" "j \<le> 253"
  shows "round32 x =
     (if round_half_even (\<bar>x\<bar> / (2 ^ j / 2 ^ 149)) = 0 then signed_zero (x < 0)
      else if 2 ^ 128 \<le> real_of_int (round_half_even (\<bar>x\<bar> / (2 ^ j / 2 ^ 149))) * (2 ^ j / 2 ^ 149)
        then Infinity (x < 0)
      else Finite (sgn x * of_int (round_half_even (\<bar>x\<bar> / (2 ^ j / 2 ^ 149))) * (2 ^ j / 2 ^ 149)))"
  unfolding round32_def quantum_def binade_eqI [OF assms] Let_def ..

lemma round32_exact:
  assumes x: "x = of_int m * 2 ^ e / 2 ^ 149" and m: "\<bar>m\<bar> < 2 ^ 24" and e: "e \<le> 253"
  shows "round32 x = Finite x"
proof -
  define a where "a = \<bar>x\<bar>"
  have a: "a = of_int \<bar>m\<bar> * 2 ^ e / 2 ^ 149"
    unfolding a_def x by (simp add: abs_mult)
  have split: "(2::real) ^ 149 = 2 ^ 126 * 2 ^ 23" by (simp flip: power_add)
  have m': "real_of_int \<bar>m\<bar> < 2 ^ 24"
    using m by (metis of_int_less_numeral_power_cancel_iff)
  have "a * 2 ^ 126 = of_int \<bar>m\<bar> * 2 ^ e / 2 ^ 23"
    unfolding a split by simp
  also have "\<dots> < 2 ^ 24 * 2 ^ e / 2 ^ 23"
    using m' by (simp add: divide_strict_right_mono)
  also have "\<dots> = 2 ^ Suc e"
  proof -
    have "(2::real) ^ 24 = 2 * 2 ^ 23" by (simp flip: power_Suc)
    then show ?thesis by simp
  qed
  finally have "binade a \<le> e" by (rule binade_le)
  define j where "j = binade a"
  with \<open>binade a \<le> e\<close> obtain d where d: "e = j + d" by (auto simp: le_iff_add)
  have qa: "quantum a = 2 ^ j / 2 ^ 149" by (simp only: quantum_def j_def)
  define M where "M = \<bar>m\<bar> * 2 ^ d"
  have "a / (2 ^ j / 2 ^ 149) = real_of_int M"
    unfolding a d M_def by (simp add: power_add)
  then have q: "a / quantum a = of_int M"
    by (simp only: qa)
  have mq: "of_int M * quantum a = a"
    unfolding q [symmetric] qa by simp
  have small: "a < 2 ^ 128"
  proof -
    have "a < 2 ^ 24 * 2 ^ e / 2 ^ 149"
      unfolding a using m' by (simp add: divide_strict_right_mono)
    also have "\<dots> \<le> 2 ^ 24 * 2 ^ 253 / 2 ^ 149"
      using e by (intro divide_right_mono mult_left_mono power_increasing) simp_all
    also have "\<dots> = 2 ^ 128" by simp
    finally show ?thesis .
  qed
  have r: "round32 x =
      (if M = 0 then signed_zero (x < 0)
       else if 2 ^ 128 \<le> of_int M * quantum a then Infinity (x < 0)
       else Finite (sgn x * of_int M * quantum a))"
    unfolding round32_def Let_def a_def [symmetric] q round_half_even_of_int ..
  show ?thesis
  proof (cases "m = 0")
    case True
    then have "M = 0" "x = 0" using x by (simp_all add: M_def)
    then show ?thesis unfolding r by (simp add: signed_zero_def)
  next
    case False
    then have nz: "M \<noteq> 0" by (simp add: M_def)
    have "sgn x * of_int M * quantum a = sgn x * (of_int M * quantum a)" by simp
    also have "\<dots> = x" by (simp only: mq) (simp add: a_def mult_sgn_abs)
    finally have v: "sgn x * of_int M * quantum a = x" .
    from small have "\<not> 2 ^ 128 \<le> of_int M * quantum a" unfolding mq by simp
    with nz show ?thesis unfolding r v by simp
  qed
qed

lemma round32_nat:
  assumes "k \<le> 2 ^ 24"
  shows "round32 (real k) = Finite (real k)"
proof (cases "k = 2 ^ 24")
  case True
  have "round32 (real_of_int (2 ^ 23) * 2 ^ 150 / 2 ^ 149) = Finite (real_of_int (2 ^ 23) * 2 ^ 150 / 2 ^ 149)"
    by (rule round32_exact [OF refl]) simp_all
  moreover have "real_of_int (2 ^ 23) * 2 ^ 150 / 2 ^ 149 = real k"
    unfolding True by simp
  ultimately show ?thesis by simp
next
  case False
  with assms have "k < 2 ^ 24" by simp
  then have "\<bar>int k\<bar> < 2 ^ 24" by simp
  from round32_exact [OF refl this, of 149] show ?thesis by simp
qed

lemma float_count_step:
  "fadd (Finite (real (min c 16777216))) (Finite 1) = Finite (real (min (Suc c) 16777216))"
proof (cases "c < 16777216")
  case True
  then have "Suc c \<le> 2 ^ 24" by simp
  from round32_nat [OF this] True show ?thesis by (simp add: add.commute)
next
  case False
  have "round32 16777217 = Finite 16777216"
    by (subst round32_eval [of 150]) (simp_all add: round_half_even_def)
  with False show ?thesis by simp
qed

lemma round32_two_thirds: "round32 (2 / 3) = Finite (11184811 / 16777216)"
  by (subst round32_eval [of 125]) (simp_all add: round_half_even_def)


lemma flt_finite: "is_finite a \<Longrightarrow> is_finite b \<Longrightarrow> flt a b \<longleftrightarrow> fval a < fval b"
  by (cases a; cases b) simp_all




lemma float_1e_5_value: "float_1e_5 = Finite (2748779 / 274877906944)"
  unfolding float_1e_5_def
  by (subst round32_eval [of 109]) (simp_all add: round_half_even_def)
section \<open>The classification metric\<close>

lemma first_max_bound: "first_max m b r \<Longrightarrow> x \<in> set m \<Longrightarrow> pv x \<le> pv r"
  unfolding first_max_def by (elim disjE exE conjE) (simp, fastforce)

lemma first_max_start: "first_max m b r \<Longrightarrow> pv b \<le> pv r"
  unfolding first_max_def by (elim disjE exE conjE) simp_all

lemma first_max_snoc_new:
  assumes "first_max m b r" "pv r < pv a"
  shows "first_max (m @ [a]) b a"
proof -
  have "\<forall>x \<in> set m. pv x < pv a"
    using first_max_bound [OF assms(1)] assms(2) by fastforce
  moreover have "pv b < pv a"
    using first_max_start [OF assms(1)] assms(2) by simp
  moreover have "m @ [a] = m @ a # []" by simp
  ultimately have "\<exists>xs ys. m @ [a] = xs @ a # ys \<and> pv b < pv a \<and>
        (\<forall>x \<in> set xs. pv x < pv a) \<and> (\<forall>y \<in> set ys. pv y \<le> pv a)"
    by (intro exI [of _ m] exI [of _ "[]"]) simp
  then show ?thesis unfolding first_max_def by (rule disjI2)
qed

lemma first_max_snoc_keep:
  assumes "first_max m b r" "\<not> pv r < pv a"
  shows "first_max (m @ [a]) b r"
  using assms(1) unfolding first_max_def
proof (elim disjE exE conjE)
  assume "r = b" "\<forall>x\<in>set m. pv x \<le> pv b"
  then have "r = b \<and> (\<forall>x\<in>set (m @ [a]). pv x \<le> pv b)" using assms(2) by simp
  then show "r = b \<and> (\<forall>x\<in>set (m @ [a]). pv x \<le> pv b) \<or>
    (\<exists>xs ys. m @ [a] = xs @ r # ys \<and> pv b < pv r \<and> (\<forall>x\<in>set xs. pv x < pv r) \<and> (\<forall>y\<in>set ys. pv y \<le> pv r))"
    by (rule disjI1)
next
  fix xs ys
  assume h: "m = xs @ r # ys" "pv b < pv r" "\<forall>x\<in>set xs. pv x < pv r" "\<forall>y\<in>set ys. pv y \<le> pv r"
  have "m @ [a] = xs @ r # (ys @ [a]) \<and> pv b < pv r \<and> (\<forall>x\<in>set xs. pv x < pv r) \<and>
     (\<forall>y\<in>set (ys @ [a]). pv y \<le> pv r)"
    using h assms(2) by simp
  then have "\<exists>xs ys. m @ [a] = xs @ r # ys \<and> pv b < pv r \<and> (\<forall>x\<in>set xs. pv x < pv r) \<and> (\<forall>y\<in>set ys. pv y \<le> pv r)"
    by (intro exI [of _ xs] exI [of _ "ys @ [a]"])
  then show "r = b \<and> (\<forall>x\<in>set (m @ [a]). pv x \<le> pv b) \<or>
    (\<exists>xs ys. m @ [a] = xs @ r # ys \<and> pv b < pv r \<and> (\<forall>x\<in>set xs. pv x < pv r) \<and> (\<forall>y\<in>set ys. pv y \<le> pv r))"
    by (rule disjI2)
qed

lemma argmax_step_new:
  "is_finite (snd best) \<Longrightarrow> is_finite (snd itr) \<Longrightarrow> pv best < pv itr \<Longrightarrow>
   argmax_step itr best = itr"
  by (simp add: argmax_step_def pv_def flt_finite)

lemma argmax_step_keep:
  "is_finite (snd best) \<Longrightarrow> is_finite (snd itr) \<Longrightarrow> \<not> pv best < pv itr \<Longrightarrow>
   argmax_step itr best = best"
  by (simp add: argmax_step_def pv_def flt_finite)

lemma first_max_member: "first_max m b r \<Longrightarrow> r = b \<or> r \<in> set m"
  unfolding first_max_def by auto

lemma fold_argmax_step:
  assumes "is_finite (snd b)" "\<forall>x \<in> set m. is_finite (snd x)"
  shows "first_max m b (fold argmax_step m b)"
  using assms(2)
proof (induction m rule: rev_induct)
  case Nil
  show ?case by (simp add: first_max_def)
next
  case (snoc a m)
  then have ih: "first_max m b (fold argmax_step m b)" and fa: "is_finite (snd a)"
    and fm: "\<forall>x \<in> set m. is_finite (snd x)"
    by simp_all
  from first_max_member [OF ih] assms(1) fm have fr: "is_finite (snd (fold argmax_step m b))"
    by auto
  show ?case
  proof (cases "pv (fold argmax_step m b) < pv a")
    case True
    then show ?thesis using first_max_snoc_new [OF ih True]
      by (simp add: argmax_step_new [OF fr fa])
  next
    case False
    then show ?thesis using first_max_snoc_keep [OF ih False]
      by (simp add: argmax_step_keep [OF fr fa])
  qed
qed

lemma pred_class_is_arg_max:
  assumes "probabilities m"
  shows "is_arg_max m (pred_class m)"
proof -
  define r where "r = fold argmax_step m (-1, Finite (-1))"
  from assms have ne: "m \<noteq> []" and ord: "sorted (map fst m)"
    and fin: "\<forall>x \<in> set m. is_finite (snd x)"
    and gt: "\<forall>x \<in> set m. -1 < pv x"
    by (auto simp: probabilities_def map_ordered_def pv_def)
  have fm: "first_max m (-1, Finite (-1)) r"
    unfolding r_def by (rule fold_argmax_step) (simp_all add: fin)
  have "\<not> (\<forall>x \<in> set m. pv x \<le> -1)"
  proof
    assume a: "\<forall>x \<in> set m. pv x \<le> -1"
    from ne obtain x where "x \<in> set m" by (cases m) auto
    with a gt show False by fastforce
  qed
  with fm obtain xs ys where h: "m = xs @ r # ys" "\<forall>x\<in>set xs. pv x < pv r"
    "\<forall>y\<in>set ys. pv y \<le> pv r"
    unfolding first_max_def by (auto simp: pv_def)
  have "sorted (map fst (xs @ r # ys))" using ord h(1) by simp
  then have keys: "\<forall>y \<in> set ys. fst r \<le> fst y"
    by (simp add: sorted_append)
  have mem: "r \<in> set m" by (subst h(1)) simp
  have all: "pv x < pv r \<or> (pv x = pv r \<and> fst r \<le> fst x)" if "x \<in> set m" for x
  proof -
    from that have "x \<in> set (xs @ r # ys)" using h(1) by simp
    then have "x \<in> set xs \<or> x = r \<or> x \<in> set ys" by auto
    then show ?thesis
    proof (elim disjE)
      assume "x \<in> set xs" then show ?thesis using h(2) by simp
    next
      assume "x = r" then show ?thesis by simp
    next
      assume "x \<in> set ys"
      then have "pv x \<le> pv r" "fst r \<le> fst x" using h(3) keys by simp_all
      then show ?thesis by linarith
    qed
  qed
  have "\<exists>x \<in> set m. fst x = fst r \<and>
      (\<forall>y \<in> set m. pv y < pv x \<or> (pv y = pv x \<and> fst r \<le> fst y))"
    using mem all by (intro bexI [of _ r]) simp_all
  then show ?thesis
    unfolding is_arg_max_def pred_class_def r_def [symmetric] pv_def
    by (simp add: case_prod_beta)
qed

lemma is_arg_max_unique:
  assumes "is_arg_max m c" "is_arg_max m d"
  shows "c = d"
proof -
  from assms(1) obtain p where c: "(c, p) \<in> set m"
    "\<forall>y \<in> set m. pv y < fval p \<or> (pv y = fval p \<and> c \<le> fst y)"
    unfolding is_arg_max_def pv_def by (auto simp: case_prod_beta)
  from assms(2) obtain q where d: "(d, q) \<in> set m"
    "\<forall>y \<in> set m. pv y < fval q \<or> (pv y = fval q \<and> d \<le> fst y)"
    unfolding is_arg_max_def pv_def by (auto simp: case_prod_beta)
  from c(2) d(1) have "fval q < fval p \<or> (fval q = fval p \<and> c \<le> d)"
    by (fastforce simp: pv_def)
  moreover from d(2) c(1) have "fval p < fval q \<or> (fval p = fval q \<and> d \<le> c)"
    by (fastforce simp: pv_def)
  ultimately show ?thesis by linarith
qed

lemma is_arg_max_iff: "probabilities m \<Longrightarrow> is_arg_max m c \<longleftrightarrow> pred_class m = c"
  using pred_class_is_arg_max is_arg_max_unique by blast

lemma classification_rowsD:
  assumes "classification_rows X" "k < length X"
  shows "\<exists>c rest. X ! k = Category c # rest"
proof -
  from assms(2) have "X ! k \<in> set X" by (rule nth_mem)
  with assms(1) have "case X ! k of Category c # rest \<Rightarrow> True | _ \<Rightarrow> False"
    unfolding classification_rows_def by blast
  then show ?thesis
    by (cases "X ! k") (simp_all split: VALUE.splits)
qed

text \<open>The float counter after \<open>c\<close> correct rows holds \<open>min c (2 ^ 24)\<close>: from \<open>2 ^ 24\<close> on,
  adding 1 rounds back to \<open>2 ^ 24\<close>.\<close>

lemma recall_loop_count:
  assumes "length preds \<le> length X" "classification_rows X" "\<forall>m \<in> set preds. probabilities m"
  shows "recall_loop preds X k (Finite (real (min c 16777216))) =
     Inr (Finite (real (min
       (c + length (filter (\<lambda>j. counted_correct (preds ! j) (X ! j)) [k..<length preds]))
       16777216)))"
proof (induction "length preds - k" arbitrary: k c)
  case 0
  then have "\<not> k < length preds" by simp
  then show ?case by (subst recall_loop.simps) simp
next
  case (Suc n)
  then have lt: "k < length preds" and n: "n = length preds - Suc k" by simp_all
  from lt assms(1) have ltX: "k < length X" by simp
  from classification_rowsD [OF assms(2) ltX] obtain cl rest where row: "X ! k = Category cl # rest"
    by blast
  have prob: "probabilities (preds ! k)" using assms(3) lt by simp
  have cc: "counted_correct (preds ! k) (Category cl # rest) \<longleftrightarrow> pred_class (preds ! k) = cl"
    by (simp add: counted_correct_def is_arg_max_iff [OF prob])
  have up: "[k..<length preds] = k # [Suc k..<length preds]"
    using lt by (simp add: upt_conv_Cons)
  let ?rest = "length (filter (\<lambda>j. counted_correct (preds ! j) (X ! j)) [Suc k..<length preds])"
  have ih: "recall_loop preds X (Suc k) (Finite (real (min c' 16777216))) =
     Inr (Finite (real (min (c' + ?rest) 16777216)))" for c'
    using Suc.hyps(1) [of "Suc k" c'] n by simp
  show ?case
  proof (cases "pred_class (preds ! k) = cl")
    case True
    have "recall_loop preds X k (Finite (real (min c 16777216))) =
        recall_loop preds X (Suc k) (fadd (Finite (real (min c 16777216))) (Finite 1))"
      by (subst recall_loop.simps) (simp add: lt ltX vec_index_def row True)
    also have "\<dots> = Inr (Finite (real (min (Suc c + ?rest) 16777216)))"
      unfolding float_count_step by (rule ih)
    finally show ?thesis by (simp add: up row cc True)
  next
    case False
    have "recall_loop preds X k (Finite (real (min c 16777216))) =
        recall_loop preds X (Suc k) (Finite (real (min c 16777216)))"
      by (subst recall_loop.simps) (simp add: lt ltX vec_index_def row False)
    also have "\<dots> = Inr (Finite (real (min (c + ?rest) 16777216)))"
      by (rule ih)
    finally show ?thesis by (simp add: up row cc False)
  qed
qed

lemma recall_metric:
  assumes "evaluate tree X = Inr preds" "length preds = length X" "X \<noteq> []"
    "classification_rows X" "\<forall>m \<in> set preds. probabilities m"
  shows "test_tree evaluate tree X =
     Inr [REC (fdiv (Finite (real (min (correct_rows preds X) 16777216)))
                    (float_of_size (length X)))]"
proof -
  from assms(3) have lt: "0 < length X" by simp
  from classification_rowsD [OF assms(4) lt] obtain c rest where row: "X ! 0 = Category c # rest"
    by blast
  have "recall_loop preds X 0 (Finite (real (min 0 16777216))) =
     Inr (Finite (real (min (correct_rows preds X) 16777216)))"
    unfolding correct_rows_def
    using recall_loop_count [of preds X 0 0] assms(2,4,5) by simp
  then have "recall_loop preds X 0 (Finite 0) =
     Inr (Finite (real (min (correct_rows preds X) 16777216)))"
    by simp
  then show ?thesis
    by (simp add: test_tree_def assms(1,3) vec_index_def row)
qed


lemma demo_rows_correct: "correct_rows demo_preds demo_rows = 2"
proof -
  have up: "[0..<3] = [0, 1, 2]" by (simp add: upt_conv_Cons)
  show ?thesis
    by (simp add: correct_rows_def demo_preds_def demo_rows_def counted_correct_def
        is_arg_max_def up)
qed

lemma demo_rows_metric:
  "test_tree demo_evaluate () demo_rows = Inr [REC (Finite (11184811 / 16777216))]"
proof -
  have h: "length demo_preds = length demo_rows" "demo_rows \<noteq> []" "classification_rows demo_rows"
    "\<forall>m \<in> set demo_preds. probabilities m"
    by (simp_all add: demo_preds_def demo_rows_def classification_rows_def probabilities_def
        map_ordered_def)
  have three: "float_of_size (length demo_rows) = Finite 3"
    using round32_nat [of 3] by (simp add: float_of_size_def demo_rows_def)
  have "fdiv (Finite 2) (Finite 3) = Finite (11184811 / 16777216)"
    by (simp add: round32_two_thirds)
  moreover have "demo_evaluate () demo_rows = Inr demo_preds" by (simp add: demo_evaluate_def)
  note recall_metric [of demo_evaluate "()" demo_rows demo_preds, OF this h]
  ultimately show ?thesis using three by (simp add: demo_rows_correct)
qed





section \<open>The regression metric\<close>

lemma at_key_0_subscript:
  assumes "map_ordered m" "at_key_0 m p"
  shows "map_subscript m 0 = p"
proof -
  from assms(1) have d: "distinct (map fst m)" by (simp add: map_ordered_def)
  from assms(2) show ?thesis
    unfolding at_key_0_def
  proof
    assume "(0, p) \<in> set m"
    with d have "map_of m 0 = Some p" by simp
    then show ?thesis by (simp add: map_subscript_def)
  next
    assume "0 \<notin> fst ` set m \<and> p = Finite 0"
    then have "map_of m 0 = None" "p = Finite 0" by (simp_all add: map_of_eq_None_iff)
    then show ?thesis by (simp add: map_subscript_def)
  qed
qed

lemma has_measurementD: "has_measurement r y \<Longrightarrow> \<exists>rest. r = Measurement y # rest"
  unfolding has_measurement_def by (cases r) (auto split: VALUE.splits)

lemma mapd_loop_sum:
  assumes "length preds \<le> length X"
    "\<forall>j < length preds. map_subscript (preds ! j) 0 = ps ! j \<and> has_measurement (X ! j) (ys ! j)"
  shows "mapd_loop preds X k acc =
     Inr (foldl fadd acc (map (\<lambda>j. percentage_deviation (ps ! j) (ys ! j)) [k..<length preds]))"
proof (induction "length preds - k" arbitrary: k acc)
  case 0
  then have "\<not> k < length preds" by simp
  then show ?case by (subst mapd_loop.simps) simp
next
  case (Suc n)
  then have lt: "k < length preds" and n: "n = length preds - Suc k" by simp_all
  from lt assms(1) have ltX: "k < length X" by simp
  from assms(2) lt have p: "map_subscript (preds ! k) 0 = ps ! k"
    and "has_measurement (X ! k) (ys ! k)" by simp_all
  from has_measurementD [OF this(2)] obtain rest where row: "X ! k = Measurement (ys ! k) # rest" ..
  have up: "[k..<length preds] = k # [Suc k..<length preds]"
    using lt by (simp add: upt_conv_Cons)
  have ih: "mapd_loop preds X (Suc k) a =
     Inr (foldl fadd a (map (\<lambda>j. percentage_deviation (ps ! j) (ys ! j)) [Suc k..<length preds]))"
    for a
    using Suc.hyps(1) [of "Suc k" a] n by simp
  show ?case
    by (subst mapd_loop.simps)
      (simp add: lt ltX vec_index_def row ih up p percentage_deviation_def mapd_denominator_def)
qed

lemma map2_nth:
  assumes "length ps = n" "length ys = n"
  shows "map (\<lambda>j. f (ps ! j) (ys ! j)) [0..<n] = map2 f ps ys"
  using assms by (intro nth_equalityI) simp_all

lemma mapd_metric:
  assumes "evaluate tree X = Inr preds" "length preds = length X" "X \<noteq> []"
    "\<forall>m \<in> set preds. map_ordered m"
    "length ps = length X" "length ys = length X"
    "\<forall>k < length X. at_key_0 (preds ! k) (ps ! k) \<and> has_measurement (X ! k) (ys ! k)"
  shows "test_tree evaluate tree X =
     Inr [MAPD (fdiv (float_sum (map2 percentage_deviation ps ys)) (float_of_size (length X)))]"
proof -
  from assms(3) have lt: "0 < length X" by simp
  with assms(7) have "has_measurement (X ! 0) (ys ! 0)" by simp
  from has_measurementD [OF this] obtain rest where row: "X ! 0 = Measurement (ys ! 0) # rest" ..
  have sub: "\<forall>j < length preds.
      map_subscript (preds ! j) 0 = ps ! j \<and> has_measurement (X ! j) (ys ! j)"
    using assms(2,4,7) by (auto intro: at_key_0_subscript)
  have "mapd_loop preds X 0 (Finite 0) =
     Inr (foldl fadd (Finite 0)
       (map (\<lambda>j. percentage_deviation (ps ! j) (ys ! j)) [0..<length preds]))"
    using assms(2) by (intro mapd_loop_sum sub) simp
  also have "map (\<lambda>j. percentage_deviation (ps ! j) (ys ! j)) [0..<length preds]
      = map2 percentage_deviation ps ys"
    using assms(2,5,6) by (intro map2_nth) simp_all
  finally have "mapd_loop preds X 0 (Finite 0) = Inr (float_sum (map2 percentage_deviation ps ys))"
    by (simp add: float_sum_def)
  then show ?thesis
    by (simp add: test_tree_def assms(1,3) vec_index_def row)
qed


text \<open>Some values of the float arithmetic.\<close>

lemma round32_1: "round32 1 = Finite 1"
  by (subst round32_eval [of 126]) (simp_all add: round_half_even_def)

lemma round32_2: "round32 2 = Finite 2"
  by (subst round32_eval [of 127]) (simp_all add: round_half_even_def)

lemma round32_fifth: "round32 (1 / 5) = Finite (13421773 / 67108864)"
  by (subst round32_eval [of 123]) (simp_all add: round_half_even_def)

lemma float_of_size_1: "float_of_size (Suc 0) = Finite 1"
  by (simp add: float_of_size_def round32_1)

lemma float_of_size_2: "float_of_size (Suc (Suc 0)) = Finite 2"
  by (simp add: float_of_size_def round32_2)

lemma fadd_0_fifth:
  "fadd (Finite 0) (Finite (13421773 / 67108864)) = Finite (13421773 / 67108864)"
  by (simp, subst round32_eval [of 123]) (simp_all add: round_half_even_def)

lemma fdiv_fifth_1:
  "fdiv (Finite (13421773 / 67108864)) (Finite 1) = Finite (13421773 / 67108864)"
  by (simp, subst round32_eval [of 123]) (simp_all add: round_half_even_def)



lemma fadd_fifth_100000:
  "fadd (Finite (13421773 / 67108864)) (Finite 100000) = Finite (6400013 / 64)"
  by (simp, subst round32_eval [of 142]) (simp_all add: round_half_even_def)

lemma fdiv_price_2: "fdiv (Finite (6400013 / 64)) (Finite 2) = Finite (6400013 / 128)"
  by (simp, subst round32_eval [of 141]) (simp_all add: round_half_even_def)

lemma fadd_fifth_1200000:
  "fadd (Finite (13421773 / 67108864)) (Finite 1200000) = Finite (4800001 / 4)"
  by (simp, subst round32_eval [of 146]) (simp_all add: round_half_even_def)

lemma fdiv_train_2: "fdiv (Finite (4800001 / 4)) (Finite 2) = Finite (4800001 / 8)"
  by (simp, subst round32_eval [of 145]) (simp_all add: round_half_even_def)

lemma deviation_12_10: "percentage_deviation (Finite 12) (Finite 10) = Finite (13421773 / 67108864)"
  by (simp add: percentage_deviation_def fsub_def std_max_def float_1e_5_value round32_2
      round32_fifth)

lemma deviation_1_0: "percentage_deviation (Finite 1) (Finite 0) = Finite 100000"
  by (simp add: percentage_deviation_def fsub_def std_max_def float_1e_5_value,
      subst round32_eval [of 142]) (simp_all add: round_half_even_def)

lemma deviation_12_0: "percentage_deviation (Finite 12) (Finite 0) = Finite 1200000"
  by (simp add: percentage_deviation_def fsub_def std_max_def float_1e_5_value,
      subst round32_eval [of 146]) (simp_all add: round_half_even_def)


lemma price_value:
  "fdiv (float_sum (map2 percentage_deviation [Finite 12, Finite 1] [Finite 10, Finite 0]))
     (Finite 2) = Finite (6400013 / 128)"
  by (simp add: float_sum_def deviation_12_10 deviation_1_0 fadd_0_fifth fadd_fifth_100000
      fdiv_price_2 del: fadd.simps fdiv.simps)

lemma train_value:
  "fdiv (float_sum (map2 percentage_deviation [Finite 12, Finite 12] [Finite 10, Finite 0]))
     (Finite 2) = Finite (4800001 / 8)"
  by (simp add: float_sum_def deviation_12_10 deviation_12_0 fadd_0_fifth fadd_fifth_1200000
      fdiv_train_2 del: fadd.simps fdiv.simps)

lemma test_value:
  "fdiv (float_sum (map2 percentage_deviation [Finite 12] [Finite 10])) (Finite 1)
     = Finite (13421773 / 67108864)"
  by (simp add: float_sum_def deviation_12_10 fadd_0_fifth fdiv_fifth_1
      del: fadd.simps fdiv.simps)


lemma price_rows_metric:
  "test_tree price_evaluate () price_rows = Inr [MAPD (Finite (6400013 / 128))]"
proof -
  have e: "price_evaluate () price_rows = Inr price_preds" by (simp add: price_evaluate_def)
  have "\<forall>k < length price_rows.
      at_key_0 (price_preds ! k) ([Finite 12, Finite 1] ! k) \<and>
      has_measurement (price_rows ! k) ([Finite 10, Finite 0] ! k)"
    by (simp add: price_rows_def price_preds_def at_key_0_def has_measurement_def less_Suc_eq)
  from mapd_metric [of price_evaluate "()" price_rows price_preds, OF e _ _ _ _ _ this]
  have "test_tree price_evaluate () price_rows =
      Inr [MAPD (fdiv (float_sum (map2 percentage_deviation [Finite 12, Finite 1]
             [Finite 10, Finite 0])) (float_of_size (length price_rows)))]"
    by (simp add: price_rows_def price_preds_def map_ordered_def)
  also have "float_of_size (length price_rows) = Finite 2"
    by (simp add: price_rows_def float_of_size_2)
  finally show ?thesis by (simp only: price_value)
qed





lemma test_tree_prints_one_metric:
  assumes "test_tree evaluate tree X = Inr out"
  shows "\<exists>r0 v0 l. vec_index X 0 = Inr r0 \<and> vec_index r0 0 = Inr v0 \<and> out = [l] \<and>
     (is_REC l \<longleftrightarrow> VALUE_dtype v0 = 0) \<and> (is_MAPD l \<longleftrightarrow> VALUE_dtype v0 = 1)"
proof -
  from assms obtain preds where ev: "evaluate tree X = Inr preds"
    by (cases "evaluate tree X") (simp_all add: test_tree_def)
  from assms ev obtain r0 where r0: "vec_index X 0 = Inr r0"
    by (cases "vec_index X 0") (simp_all add: test_tree_def)
  from assms ev r0 obtain v0 where v0: "vec_index r0 0 = Inr v0"
    by (cases "vec_index r0 0") (simp_all add: test_tree_def)
  show ?thesis
  proof (cases v0)
    case (Category c)
    with assms ev r0 v0 obtain x where "out = [REC x]"
      by (cases "recall_loop preds X 0 (Finite 0)") (auto simp: test_tree_def)
    then show ?thesis using r0 v0 Category by simp
  next
    case (Measurement y)
    with assms ev r0 v0 obtain x where "out = [MAPD x]"
      by (cases "mapd_loop preds X 0 (Finite 0)") (auto simp: test_tree_def)
    then show ?thesis using r0 v0 Measurement by simp
  qed
qed

section \<open>The choice of the metric\<close>

text \<open>
  Claim C3. Which metric \<^verbatim>\<open>test_tree\<close> prints is decided by the discriminant of the
  target value in column 0 of the first row alone: discriminant 0 gives the recall,
  discriminant 1 the mean absolute percentage deviation.
\<close>

theorem metric_selected_by_first_target:
  assumes "test_tree evaluate tree X = Inr out"
  shows "\<exists>r0 v0 l. vec_index X 0 = Inr r0 \<and> vec_index r0 0 = Inr v0 \<and> out = [l] \<and>
     (is_REC l \<longleftrightarrow> VALUE_dtype v0 = 0) \<and> (is_MAPD l \<longleftrightarrow> VALUE_dtype v0 = 1)"
  using assms by (rule test_tree_prints_one_metric)

theorem metric_selected_by_first_target_witness:
  "test_tree price_evaluate () price_rows = Inr [MAPD (Finite (6400013 / 128))] \<and>
   (\<exists>r0 v0 l. vec_index price_rows 0 = Inr r0 \<and> vec_index r0 0 = Inr v0 \<and>
      [MAPD (Finite (6400013 / 128))] = [l] \<and>
      (is_REC l \<longleftrightarrow> VALUE_dtype v0 = 0) \<and> (is_MAPD l \<longleftrightarrow> VALUE_dtype v0 = 1)) \<and>
   test_tree demo_evaluate () demo_rows = Inr [REC (Finite (11184811 / 16777216))] \<and>
   (\<exists>r0 v0 l. vec_index demo_rows 0 = Inr r0 \<and> vec_index r0 0 = Inr v0 \<and>
      [REC (Finite (11184811 / 16777216))] = [l] \<and>
      (is_REC l \<longleftrightarrow> VALUE_dtype v0 = 0) \<and> (is_MAPD l \<longleftrightarrow> VALUE_dtype v0 = 1))"
  using metric_selected_by_first_target [of price_evaluate "()" price_rows, OF price_rows_metric]
    metric_selected_by_first_target [of demo_evaluate "()" demo_rows, OF demo_rows_metric]
    price_rows_metric demo_rows_metric
  by simp
section \<open>The loop of the program\<close>

lemma test_tree_metric:
  assumes "test_tree evaluate tree X = Inr out"
  obtains l where "out = [l]" "is_metric l"
proof -
  from test_tree_prints_one_metric [OF assms] obtain r0 v0 l where
    h: "out = [l]" "is_REC l \<longleftrightarrow> VALUE_dtype v0 = 0" "is_MAPD l \<longleftrightarrow> VALUE_dtype v0 = 1"
    by blast
  have "is_metric l" using h(2,3) by (cases v0) (simp_all add: is_metric_def)
  with h(1) that show ?thesis by blast
qed

lemma main_loop_step:
  assumes "main_loop tc trainset testset (d # ds) p ev = (events, Inr rc)"
  shows "\<exists>a b. run_metrics tc trainset testset p d a b \<and>
     main_loop tc trainset testset ds (p\<lparr>max_depth := d\<rparr>) (ev @ run_events tc trainset p d a b)
       = (events, Inr rc)"
proof -
  let ?q = "p\<lparr>max_depth := d\<rparr>"
  from assms obtain t where t: "Train tc (CTree_new tc) trainset ?q = Inr t"
    by (cases "Train tc (CTree_new tc) trainset ?q") (simp_all add: Let_def)
  from assms t obtain o1 where o1: "test_tree (Evaluate tc) t trainset = Inr o1"
    by (cases "test_tree (Evaluate tc) t trainset") (simp_all add: Let_def)
  from assms t o1 obtain o2 where o2: "test_tree (Evaluate tc) t testset = Inr o2"
    by (cases "test_tree (Evaluate tc) t testset") (simp_all add: Let_def)
  from test_tree_metric [OF o1] obtain a where a: "o1 = [a]" "is_metric a" .
  from test_tree_metric [OF o2] obtain b where b: "o2 = [b]" "is_metric b" .
  have "run_metrics tc trainset testset p d a b"
    using t o1 o2 a b by (simp add: run_metrics_def)
  moreover have "main_loop tc trainset testset ds ?q (ev @ run_events tc trainset p d a b)
       = (events, Inr rc)"
    using assms t o1 o2 a(1) b(1) by (simp add: Let_def run_events_def)
  ultimately show ?thesis by blast
qed

lemma main_unfold:
  assumes "getenv ''DATASET_ROOT_DIR'' = Some root_env"
  shows "main getenv ext files tc param =
    (case load_data_from_one_file ext files
            (root_env @ ''house_price'' @ [CHR 0x5C] @ ''/train.csv'') (GetDataConfig []) of
       Inl e \<Rightarrow> ([], Inl e)
     | Inr trainset \<Rightarrow>
        (case load_data_from_one_file ext files
                (root_env @ ''house_price'' @ [CHR 0x5C] @ ''/test.csv'') (GetDataConfig []) of
           Inl e \<Rightarrow> ([], Inl e)
         | Inr testset \<Rightarrow>
             main_loop tc trainset testset [3, 10, 50]
               (param\<lparr>loss_type := ''gini'', min_std := 1 / 10\<rparr>)
               [Stdout (INFO (length trainset) (length testset))]))"
  unfolding main_def load_data_def Let_def
  by (simp add: assms split: sum.splits)

text \<open>
  Claim C5. A run of the program that completes trains exactly three times, each time a
  newly constructed tree, at the depths 3, 10 and 50 in this order, and after each training
  prints the metric (recall or MAPD) of that tree over the training set and over the test
  set.
\<close>

theorem three_training_runs:
  assumes "main getenv ext files tree_class param = (events, Inr rc)"
  shows "\<exists>trainset testset a1 b1 a2 b2 a3 b3.
     events = Stdout (INFO (length trainset) (length testset))
       # run_events tree_class trainset (param\<lparr>loss_type := ''gini'', min_std := 1 / 10\<rparr>) 3 a1 b1
       @ run_events tree_class trainset (param\<lparr>loss_type := ''gini'', min_std := 1 / 10\<rparr>) 10 a2 b2
       @ run_events tree_class trainset (param\<lparr>loss_type := ''gini'', min_std := 1 / 10\<rparr>) 50 a3 b3 \<and>
     run_metrics tree_class trainset testset (param\<lparr>loss_type := ''gini'', min_std := 1 / 10\<rparr>) 3 a1 b1 \<and>
     run_metrics tree_class trainset testset (param\<lparr>loss_type := ''gini'', min_std := 1 / 10\<rparr>) 10 a2 b2 \<and>
     run_metrics tree_class trainset testset (param\<lparr>loss_type := ''gini'', min_std := 1 / 10\<rparr>) 50 a3 b3 \<and>
     map (\<lambda>(t, X, p). (t, max_depth p)) (train_calls events)
       = [(CTree_new tree_class, 3), (CTree_new tree_class, 10), (CTree_new tree_class, 50)]"
proof -
  let ?p = "param\<lparr>loss_type := ''gini'', min_std := 1 / 10\<rparr>"
  from assms obtain root_env where env: "getenv ''DATASET_ROOT_DIR'' = Some root_env"
    by (cases "getenv ''DATASET_ROOT_DIR''") (simp_all add: main_def)
  note m = assms [unfolded main_unfold [of getenv root_env, OF env]]
  from m obtain trainset where tr: "load_data_from_one_file ext files
            (root_env @ ''house_price'' @ [CHR 0x5C] @ ''/train.csv'') (GetDataConfig []) = Inr trainset"
    by (simp split: sum.splits)
  from m tr obtain testset where te: "load_data_from_one_file ext files
            (root_env @ ''house_price'' @ [CHR 0x5C] @ ''/test.csv'') (GetDataConfig []) = Inr testset"
    by (simp split: sum.splits)
  let ?e0 = "[Stdout (INFO (length trainset) (length testset))]"
  from m tr te have l0: "main_loop tree_class trainset testset [3, 10, 50] ?p ?e0 = (events, Inr rc)"
    by simp
  from main_loop_step [OF l0] obtain a1 b1 where
    r1: "run_metrics tree_class trainset testset ?p 3 a1 b1" and
    l1: "main_loop tree_class trainset testset [10, 50] (?p\<lparr>max_depth := 3\<rparr>)
           (?e0 @ run_events tree_class trainset ?p 3 a1 b1) = (events, Inr rc)"
    by blast
  have p3: "run_events tree_class trainset (?p\<lparr>max_depth := 3\<rparr>) d a b
      = run_events tree_class trainset ?p d a b" for d a b
    by (simp add: run_events_def)
  have m3: "run_metrics tree_class trainset testset (?p\<lparr>max_depth := 3\<rparr>) d a b
      = run_metrics tree_class trainset testset ?p d a b" for d a b
    by (simp add: run_metrics_def)
  from main_loop_step [OF l1] obtain a2 b2 where
    r2: "run_metrics tree_class trainset testset ?p 10 a2 b2" and
    l2: "main_loop tree_class trainset testset [50] (?p\<lparr>max_depth := 10\<rparr>)
           ((?e0 @ run_events tree_class trainset ?p 3 a1 b1)
              @ run_events tree_class trainset ?p 10 a2 b2) = (events, Inr rc)"
    unfolding p3 m3 by auto
  have p10: "run_events tree_class trainset (?p\<lparr>max_depth := 10\<rparr>) d a b
      = run_events tree_class trainset ?p d a b" for d a b
    by (simp add: run_events_def)
  have m10: "run_metrics tree_class trainset testset (?p\<lparr>max_depth := 10\<rparr>) d a b
      = run_metrics tree_class trainset testset ?p d a b" for d a b
    by (simp add: run_metrics_def)
  from main_loop_step [OF l2] obtain a3 b3 where
    r3: "run_metrics tree_class trainset testset ?p 50 a3 b3" and
    l3: "main_loop tree_class trainset testset [] (?p\<lparr>max_depth := 50\<rparr>)
           (((?e0 @ run_events tree_class trainset ?p 3 a1 b1)
              @ run_events tree_class trainset ?p 10 a2 b2)
              @ run_events tree_class trainset ?p 50 a3 b3) = (events, Inr rc)"
    unfolding p10 m10 by auto
  from l3 have ev: "events = Stdout (INFO (length trainset) (length testset))
       # run_events tree_class trainset ?p 3 a1 b1
       @ run_events tree_class trainset ?p 10 a2 b2
       @ run_events tree_class trainset ?p 50 a3 b3"
    by simp
  have calls: "map (\<lambda>(t, X, p). (t, max_depth p)) (train_calls events)
       = [(CTree_new tree_class, 3), (CTree_new tree_class, 10), (CTree_new tree_class, 50)]"
    unfolding ev by (simp add: run_events_def)
  note all = conjI [OF ev conjI [OF r1 conjI [OF r2 conjI [OF r3 calls]]]]
  show ?thesis by (rule exI)+ (rule all)
qed

lemma demo_load_train:
  "load_data_from_one_file demo_ext demo_files (''data/house_price'' @ [CHR 0x5C] @ ''/train.csv'')
     (GetDataConfig []) = Inr demo_trainset"
  by code_simp

lemma demo_load_test:
  "load_data_from_one_file demo_ext demo_files (''data/house_price'' @ [CHR 0x5C] @ ''/test.csv'')
     (GetDataConfig []) = Inr demo_testset"
  by code_simp

lemma demo_metric_train:
  "test_tree (Evaluate demo_tree) t demo_trainset = Inr [MAPD (Finite (4800001 / 8))]"
proof -
  let ?preds = "[[(0, Finite 12)], [(0, Finite 12)]]"
  have e: "Evaluate demo_tree t demo_trainset = Inr ?preds"
    by (simp add: demo_tree_def demo_trainset_def)
  have "\<forall>k < length demo_trainset.
      at_key_0 (?preds ! k) ([Finite 12, Finite 12] ! k) \<and>
      has_measurement (demo_trainset ! k) ([Finite 10, Finite 0] ! k)"
    by (simp add: demo_trainset_def at_key_0_def has_measurement_def less_Suc_eq)
  from mapd_metric [of "Evaluate demo_tree" t demo_trainset ?preds, OF e _ _ _ _ _ this]
  have "test_tree (Evaluate demo_tree) t demo_trainset =
      Inr [MAPD (fdiv (float_sum (map2 percentage_deviation [Finite 12, Finite 12]
             [Finite 10, Finite 0])) (float_of_size (length demo_trainset)))]"
    by (simp add: demo_trainset_def map_ordered_def)
  also have "float_of_size (length demo_trainset) = Finite 2"
    by (simp add: demo_trainset_def float_of_size_2)
  finally show ?thesis by (simp only: train_value)
qed

lemma demo_metric_test:
  "test_tree (Evaluate demo_tree) t demo_testset = Inr [MAPD (Finite (13421773 / 67108864))]"
proof -
  let ?preds = "[[(0, Finite 12)]]"
  have e: "Evaluate demo_tree t demo_testset = Inr ?preds"
    by (simp add: demo_tree_def demo_testset_def)
  have "\<forall>k < length demo_testset.
      at_key_0 (?preds ! k) ([Finite 12] ! k) \<and>
      has_measurement (demo_testset ! k) ([Finite 10] ! k)"
    by (simp add: demo_testset_def at_key_0_def has_measurement_def)
  from mapd_metric [of "Evaluate demo_tree" t demo_testset ?preds, OF e _ _ _ _ _ this]
  have "test_tree (Evaluate demo_tree) t demo_testset =
      Inr [MAPD (fdiv (float_sum (map2 percentage_deviation [Finite 12] [Finite 10]))
             (float_of_size (length demo_testset)))]"
    by (simp add: demo_testset_def map_ordered_def)
  also have "float_of_size (length demo_testset) = Finite 1"
    by (simp add: demo_testset_def float_of_size_1)
  finally show ?thesis by (simp only: test_value)
qed

lemma demo_run: "main demo_getenv demo_ext demo_files demo_tree demo_param = (demo_events, Inr 0)"
proof -
  have env: "demo_getenv ''DATASET_ROOT_DIR'' = Some ''data/''" by (simp add: demo_getenv_def)
  have tr: "load_data_from_one_file demo_ext demo_files
      (''data/'' @ ''house_price'' @ [CHR 0x5C] @ ''/train.csv'') (GetDataConfig [])
      = Inr demo_trainset"
    using demo_load_train by simp
  have te: "load_data_from_one_file demo_ext demo_files
      (''data/'' @ ''house_price'' @ [CHR 0x5C] @ ''/test.csv'') (GetDataConfig [])
      = Inr demo_testset"
    using demo_load_test by simp
  have tn: "Train demo_tree t X p = Inr (nat (max_depth p))" for t X p
    by (simp add: demo_tree_def)
  have len: "length demo_trainset = 2" "length demo_testset = 1"
    by (simp_all add: demo_trainset_def demo_testset_def)
  show ?thesis
    unfolding main_unfold [of demo_getenv "''data/''", OF env] tr te sum.case
    by (simp add: Let_def tn demo_metric_train demo_metric_test len demo_events_def
        run_events_def)
qed

theorem three_training_runs_witness:
  "main demo_getenv demo_ext demo_files demo_tree demo_param = (demo_events, Inr 0) \<and>
   (\<exists>trainset testset a1 b1 a2 b2 a3 b3.
     demo_events = Stdout (INFO (length trainset) (length testset))
       # run_events demo_tree trainset (demo_param\<lparr>loss_type := ''gini'', min_std := 1 / 10\<rparr>) 3 a1 b1
       @ run_events demo_tree trainset (demo_param\<lparr>loss_type := ''gini'', min_std := 1 / 10\<rparr>) 10 a2 b2
       @ run_events demo_tree trainset (demo_param\<lparr>loss_type := ''gini'', min_std := 1 / 10\<rparr>) 50 a3 b3 \<and>
     run_metrics demo_tree trainset testset (demo_param\<lparr>loss_type := ''gini'', min_std := 1 / 10\<rparr>) 3 a1 b1 \<and>
     run_metrics demo_tree trainset testset (demo_param\<lparr>loss_type := ''gini'', min_std := 1 / 10\<rparr>) 10 a2 b2 \<and>
     run_metrics demo_tree trainset testset (demo_param\<lparr>loss_type := ''gini'', min_std := 1 / 10\<rparr>) 50 a3 b3 \<and>
     map (\<lambda>(t, X, p). (t, max_depth p)) (train_calls demo_events)
       = [(CTree_new demo_tree, 3), (CTree_new demo_tree, 10), (CTree_new demo_tree, 50)])"
  using three_training_runs [OF demo_run] demo_run by simp

lemma train_calls_append: "train_calls (xs @ ys) = train_calls xs @ train_calls ys"
  by (induction xs rule: train_calls.induct) simp_all

lemma train_calls_Stdout: "train_calls (map Stdout ls) = []"
  by (induction ls) simp_all

lemma main_loop_train_calls:
  "\<exists>k. train_calls (fst (main_loop tc trainset testset ds p ev)) =
     train_calls ev @ map (\<lambda>d. (CTree_new tc, trainset, p\<lparr>max_depth := d\<rparr>)) (take k ds)"
proof (induction ds arbitrary: p ev)
  case Nil
  show ?case by simp
next
  case (Cons d ds)
  let ?q = "p\<lparr>max_depth := d\<rparr>"
  let ?call = "(CTree_new tc, trainset, ?q)"
  let ?L = "main_loop tc trainset testset (d # ds) p ev"
  have one: "train_calls (fst ?L) = train_calls ev @ [?call] \<Longrightarrow> ?case"
    by (intro exI [of _ 1]) simp
  show ?case
  proof (cases "Train tc (CTree_new tc) trainset ?q")
    case (Inl e)
    then show ?thesis by (intro one) (simp add: Let_def train_calls_append)
  next
    case t: (Inr t)
    show ?thesis
    proof (cases "test_tree (Evaluate tc) t trainset")
      case (Inl e)
      with t show ?thesis by (intro one) (simp add: Let_def train_calls_append)
    next
      case o1: (Inr o1)
      show ?thesis
      proof (cases "test_tree (Evaluate tc) t testset")
        case (Inl e)
        with t o1 show ?thesis
          by (intro one) (simp add: Let_def train_calls_append train_calls_Stdout)
      next
        case o2: (Inr o2)
        let ?ev = "ev @ [Call_Train (CTree_new tc) trainset ?q] @
           [Stdout (MaxDepth d), Stdout EvaluateTrainset] @ map Stdout o1 @ [Stdout EvaluateTestset]
           @ map Stdout o2"
        from t o1 o2 have L: "?L = main_loop tc trainset testset ds ?q ?ev"
          by (simp add: Let_def)
        from Cons.IH [of ?q ?ev] obtain k where
          k: "train_calls (fst (main_loop tc trainset testset ds ?q ?ev)) =
            train_calls ?ev @ map (\<lambda>d'. (CTree_new tc, trainset, ?q\<lparr>max_depth := d'\<rparr>)) (take k ds)"
          by blast
        have "train_calls (fst ?L) = train_calls ev @
            map (\<lambda>d'. (CTree_new tc, trainset, p\<lparr>max_depth := d'\<rparr>)) (take (Suc k) (d # ds))"
          unfolding L k by (simp add: train_calls_append train_calls_Stdout)
        then show ?thesis by (rule exI)
      qed
    qed
  qed
qed

text \<open>
  Claim C6. Over the training runs of the loop only the field \<^verbatim>\<open>max_depth\<close> of the
  parameters differs: in every call of \<^verbatim>\<open>Train\<close> the field \<^verbatim>\<open>loss_type\<close> is \<^verbatim>\<open>"gini"\<close>,
  the field \<^verbatim>\<open>min_std\<close> is 0.1, and everything else is as in the initial parameters.
\<close>

theorem only_max_depth_differs:
  assumes "main getenv ext files tree_class param = (events, outcome)"
  shows "(\<forall>(t, X, q) \<in> set (train_calls events).
            loss_type q = ''gini'' \<and> min_std q = 1 / 10 \<and>
            q = param\<lparr>loss_type := ''gini'', min_std := 1 / 10, max_depth := max_depth q\<rparr>) \<and>
         (\<forall>(t, X, q) \<in> set (train_calls events). \<forall>(t', X', q') \<in> set (train_calls events).
            q'\<lparr>max_depth := max_depth q\<rparr> = q)"
proof -
  let ?p = "param\<lparr>loss_type := ''gini'', min_std := 1 / 10\<rparr>"
  have "\<exists>trainset k. train_calls events =
      map (\<lambda>d. (CTree_new tree_class, trainset, ?p\<lparr>max_depth := d\<rparr>)) (take k [3, 10, 50])"
  proof (cases "getenv ''DATASET_ROOT_DIR''")
    case None
    with assms have "events = []" by (simp add: main_def)
    then show ?thesis by simp
  next
    case (Some root_env)
    note m = assms [unfolded main_unfold [of getenv root_env, OF Some]]
    show ?thesis
    proof (cases "load_data_from_one_file ext files
            (root_env @ ''house_price'' @ [CHR 0x5C] @ ''/train.csv'') (GetDataConfig [])")
      case (Inl e)
      with m have "events = []" by simp
      then show ?thesis by simp
    next
      case tr: (Inr trainset)
      show ?thesis
      proof (cases "load_data_from_one_file ext files
            (root_env @ ''house_price'' @ [CHR 0x5C] @ ''/test.csv'') (GetDataConfig [])")
        case (Inl e)
        with m tr have "events = []" by simp
        then show ?thesis by simp
      next
        case te: (Inr testset)
        let ?e0 = "[Stdout (INFO (length trainset) (length testset))]"
        from m tr te have "events = fst (main_loop tree_class trainset testset [3, 10, 50] ?p ?e0)"
          by simp
        with main_loop_train_calls [of tree_class trainset testset "[3, 10, 50]" ?p ?e0]
        show ?thesis by auto
      qed
    qed
  qed
  then obtain trainset k where
    c: "train_calls events =
      map (\<lambda>d. (CTree_new tree_class, trainset, ?p\<lparr>max_depth := d\<rparr>)) (take k [3, 10, 50])"
    by blast
  have q: "\<exists>d. q = ?p\<lparr>max_depth := d\<rparr>" if "(t, X, q) \<in> set (train_calls events)" for t X q
    using that unfolding c by auto
  have a: "\<forall>(t, X, q) \<in> set (train_calls events).
            loss_type q = ''gini'' \<and> min_std q = 1 / 10 \<and>
            q = param\<lparr>loss_type := ''gini'', min_std := 1 / 10, max_depth := max_depth q\<rparr>"
  proof (clarify, intro conjI)
    fix t X q assume "(t, X, q) \<in> set (train_calls events)"
    from q [OF this] obtain d where d: "q = ?p\<lparr>max_depth := d\<rparr>" ..
    show "loss_type q = ''gini''" "min_std q = 1 / 10"
      "q = param\<lparr>loss_type := ''gini'', min_std := 1 / 10, max_depth := max_depth q\<rparr>"
      unfolding d by simp_all
  qed
  have b: "\<forall>(t, X, q) \<in> set (train_calls events). \<forall>(t', X', q') \<in> set (train_calls events).
            q'\<lparr>max_depth := max_depth q\<rparr> = q"
  proof clarify
    fix t X q t' X' q'
    assume "(t, X, q) \<in> set (train_calls events)" "(t', X', q') \<in> set (train_calls events)"
    from q [OF this(1)] q [OF this(2)] obtain d d' where
      "q = ?p\<lparr>max_depth := d\<rparr>" "q' = ?p\<lparr>max_depth := d'\<rparr>" by blast
    then show "q'\<lparr>max_depth := max_depth q\<rparr> = q" by simp
  qed
  from a b show ?thesis ..
qed

theorem only_max_depth_differs_witness:
  "main demo_getenv demo_ext demo_files demo_tree demo_param = (demo_events, Inr 0) \<and>
   map (\<lambda>(t, X, q). max_depth q) (train_calls demo_events) = [3, 10, 50] \<and>
   list_all (\<lambda>(t, X, q). loss_type q = ''gini'' \<and> min_std q = 1 / 10 \<and>
       q = demo_param\<lparr>loss_type := ''gini'', min_std := 1 / 10, max_depth := max_depth q\<rparr>)
     (train_calls demo_events) \<and>
   list_all (\<lambda>(t, X, q). list_all (\<lambda>(t', X', q'). q'\<lparr>max_depth := max_depth q\<rparr> = q)
     (train_calls demo_events)) (train_calls demo_events)"
proof -
  have "map (\<lambda>(t, X, q). max_depth q) (train_calls demo_events) = [3, 10, 50]"
    by (simp add: demo_events_def run_events_def)
  with only_max_depth_differs [OF demo_run] demo_run show ?thesis
    by (simp add: list_all_iff case_prod_beta)
qed
section \<open>The environment and the files\<close>

lemma read_loop_empty_file:
  "read_loop ext data_config columns \<lparr>unread = [], eofbit = False, failbit = False\<rparr> col2head data_all
     = Inr data_all"
  by (subst read_loop.simps) (simp add: getline_def c_string_def)

lemma load_unopenable:
  "files csv_file = None \<Longrightarrow> load_data_from_one_file ext files csv_file data_config = Inr []"
  by (simp add: load_data_from_one_file_def)

lemma load_empty_file:
  "files csv_file = Some [] \<Longrightarrow> load_data_from_one_file ext files csv_file data_config = Inr []"
  by (simp add: load_data_from_one_file_def read_loop_empty_file)

lemma load_same_file:
  "files' csv_file = files csv_file \<Longrightarrow>
   load_data_from_one_file ext files' csv_file data_config =
   load_data_from_one_file ext files csv_file data_config"
  by (simp add: load_data_from_one_file_def)

text \<open>
  Claim C7. The program takes the dataset root from the environment variable
  \<^verbatim>\<open>DATASET_ROOT_DIR\<close>, appends \<^verbatim>\<open>house_price\<close> and a backslash, and loads the training and the
  test dataset from the files \<^verbatim>\<open>train.csv\<close> and \<^verbatim>\<open>test.csv\<close> under that directory: the run
  is the loop over these two datasets, and no other file enters it.
\<close>

theorem datasets_loaded_from_environment_root:
  assumes "getenv ''DATASET_ROOT_DIR'' = Some root_env"
  shows "main getenv ext files tree_class param =
    (case load_data_from_one_file ext files
            (root_env @ ''house_price'' @ [CHR 0x5C] @ ''/train.csv'') (GetDataConfig []) of
       Inl e \<Rightarrow> ([], Inl e)
     | Inr trainset \<Rightarrow>
        (case load_data_from_one_file ext files
                (root_env @ ''house_price'' @ [CHR 0x5C] @ ''/test.csv'') (GetDataConfig []) of
           Inl e \<Rightarrow> ([], Inl e)
         | Inr testset \<Rightarrow>
             main_loop tree_class trainset testset [3, 10, 50]
               (param\<lparr>loss_type := ''gini'', min_std := 1 / 10\<rparr>)
               [Stdout (INFO (length trainset) (length testset))])) \<and>
    (files' (root_env @ ''house_price'' @ [CHR 0x5C] @ ''/train.csv'')
       = files (root_env @ ''house_price'' @ [CHR 0x5C] @ ''/train.csv'') \<and>
     files' (root_env @ ''house_price'' @ [CHR 0x5C] @ ''/test.csv'')
       = files (root_env @ ''house_price'' @ [CHR 0x5C] @ ''/test.csv'') \<longrightarrow>
     main getenv ext files' tree_class param = main getenv ext files tree_class param)"
proof (intro conjI impI)
  show "main getenv ext files tree_class param =
    (case load_data_from_one_file ext files
            (root_env @ ''house_price'' @ [CHR 0x5C] @ ''/train.csv'') (GetDataConfig []) of
       Inl e \<Rightarrow> ([], Inl e)
     | Inr trainset \<Rightarrow>
        (case load_data_from_one_file ext files
                (root_env @ ''house_price'' @ [CHR 0x5C] @ ''/test.csv'') (GetDataConfig []) of
           Inl e \<Rightarrow> ([], Inl e)
         | Inr testset \<Rightarrow>
             main_loop tree_class trainset testset [3, 10, 50]
               (param\<lparr>loss_type := ''gini'', min_std := 1 / 10\<rparr>)
               [Stdout (INFO (length trainset) (length testset))]))"
    using assms by (rule main_unfold)
next
  assume "files' (root_env @ ''house_price'' @ [CHR 0x5C] @ ''/train.csv'')
       = files (root_env @ ''house_price'' @ [CHR 0x5C] @ ''/train.csv'') \<and>
     files' (root_env @ ''house_price'' @ [CHR 0x5C] @ ''/test.csv'')
       = files (root_env @ ''house_price'' @ [CHR 0x5C] @ ''/test.csv'')"
  then have "load_data_from_one_file ext files'
            (root_env @ ''house_price'' @ [CHR 0x5C] @ ''/train.csv'') (GetDataConfig [])
       = load_data_from_one_file ext files
            (root_env @ ''house_price'' @ [CHR 0x5C] @ ''/train.csv'') (GetDataConfig [])"
    "load_data_from_one_file ext files'
            (root_env @ ''house_price'' @ [CHR 0x5C] @ ''/test.csv'') (GetDataConfig [])
       = load_data_from_one_file ext files
            (root_env @ ''house_price'' @ [CHR 0x5C] @ ''/test.csv'') (GetDataConfig [])"
    by (simp_all add: load_data_from_one_file_def)
  then show "main getenv ext files' tree_class param = main getenv ext files tree_class param"
    by (simp only: main_unfold [of getenv root_env, OF assms] cong: sum.case_cong)
qed

theorem datasets_loaded_from_environment_root_witness:
  "demo_getenv ''DATASET_ROOT_DIR'' = Some ''data/'' \<and>
   load_data_from_one_file demo_ext demo_files
     (''data/'' @ ''house_price'' @ [CHR 0x5C] @ ''/train.csv'') (GetDataConfig []) = Inr demo_trainset \<and>
   load_data_from_one_file demo_ext demo_files
     (''data/'' @ ''house_price'' @ [CHR 0x5C] @ ''/test.csv'') (GetDataConfig []) = Inr demo_testset \<and>
   main demo_getenv demo_ext demo_files demo_tree demo_param =
     main_loop demo_tree demo_trainset demo_testset [3, 10, 50]
       (demo_param\<lparr>loss_type := ''gini'', min_std := 1 / 10\<rparr>) [Stdout (INFO 2 1)] \<and>
   main demo_getenv demo_ext (demo_files(''unrelated.csv'' \<mapsto> ''x'')) demo_tree demo_param =
     main demo_getenv demo_ext demo_files demo_tree demo_param"
proof -
  have env: "demo_getenv ''DATASET_ROOT_DIR'' = Some ''data/''" by (simp add: demo_getenv_def)
  have tr: "load_data_from_one_file demo_ext demo_files
     (''data/'' @ ''house_price'' @ [CHR 0x5C] @ ''/train.csv'') (GetDataConfig []) = Inr demo_trainset"
    using demo_load_train by simp
  have te: "load_data_from_one_file demo_ext demo_files
     (''data/'' @ ''house_price'' @ [CHR 0x5C] @ ''/test.csv'') (GetDataConfig []) = Inr demo_testset"
    using demo_load_test by simp
  have len: "length demo_trainset = 2" "length demo_testset = 1"
    by (simp_all add: demo_trainset_def demo_testset_def)
  note th = datasets_loaded_from_environment_root [of demo_getenv "''data/''" demo_ext demo_files
      demo_tree demo_param "demo_files(''unrelated.csv'' \<mapsto> ''x'')", OF env]
  from th have 1: "main demo_getenv demo_ext demo_files demo_tree demo_param =
     main_loop demo_tree demo_trainset demo_testset [3, 10, 50]
       (demo_param\<lparr>loss_type := ''gini'', min_std := 1 / 10\<rparr>) [Stdout (INFO 2 1)]"
    unfolding tr te by (simp add: len)
  from th have 2: "main demo_getenv demo_ext (demo_files(''unrelated.csv'' \<mapsto> ''x'')) demo_tree demo_param =
     main demo_getenv demo_ext demo_files demo_tree demo_param"
    by simp
  from env tr te 1 2 show ?thesis by (intro conjI)
qed

text \<open>
  Claim C9. For a file that cannot be opened \<^verbatim>\<open>load_data_from_one_file\<close> returns the empty
  dataset, as it does for an empty file; \<^verbatim>\<open>load_data\<close> gives the same result for both, and
  the code it returns is always 0.
\<close>

theorem unopenable_file_reads_as_empty:
  assumes "files csv_file = None"
  shows "load_data_from_one_file ext files csv_file data_config = Inr [] \<and>
         load_data_from_one_file ext (files(csv_file \<mapsto> [])) csv_file data_config = Inr [] \<and>
         load_data ext (files(csv_file \<mapsto> [])) data_dir data_config
           = load_data ext files data_dir data_config \<and>
         (\<forall>r. load_data ext files data_dir data_config = Inr r \<longrightarrow> fst r = 0)"
proof (intro conjI allI impI)
  show "load_data_from_one_file ext files csv_file data_config = Inr []"
    using assms by (rule load_unopenable)
  show "load_data_from_one_file ext (files(csv_file \<mapsto> [])) csv_file data_config = Inr []"
    by (rule load_empty_file) simp
  have same: "load_data_from_one_file ext (files(csv_file \<mapsto> [])) path data_config
      = load_data_from_one_file ext files path data_config" for path
  proof (cases "path = csv_file")
    case True
    then show ?thesis
      using load_unopenable [of files csv_file, OF assms]
        load_empty_file [of "files(csv_file \<mapsto> [])" csv_file]
      by simp
  next
    case False
    then show ?thesis by (intro load_same_file) simp
  qed
  show "load_data ext (files(csv_file \<mapsto> [])) data_dir data_config
           = load_data ext files data_dir data_config"
    by (simp only: load_data_def same)
  fix r assume "load_data ext files data_dir data_config = Inr r"
  then show "fst r = 0"
    by (auto simp: load_data_def Let_def split: sum.splits)
qed

theorem unopenable_file_reads_as_empty_witness:
  "load_data_from_one_file demo_ext demo_files ''missing.csv'' (GetDataConfig []) = Inr [] \<and>
   load_data_from_one_file demo_ext (demo_files(''missing.csv'' \<mapsto> [])) ''missing.csv'' (GetDataConfig [])
     = Inr [] \<and>
   load_data demo_ext demo_files ''nowhere'' (GetDataConfig []) = Inr (0, [], [], [INFO 0 0]) \<and>
   load_data demo_ext (demo_files(''missing.csv'' \<mapsto> [])) ''nowhere'' (GetDataConfig [])
     = Inr (0, [], [], [INFO 0 0])"
proof -
  have none: "demo_files ''missing.csv'' = None" by (simp add: demo_files_def)
  have l: "load_data demo_ext demo_files ''nowhere'' (GetDataConfig []) = Inr (0, [], [], [INFO 0 0])"
    by (simp add: load_data_def load_data_from_one_file_def demo_files_def)
  from unopenable_file_reads_as_empty [of demo_files "''missing.csv''" demo_ext "GetDataConfig []"
      "''nowhere''", OF none] l
  show ?thesis by simp
qed

text \<open>
  Claim C10. \<^verbatim>\<open>main\<close> builds a \<^verbatim>\<open>std::string\<close> from the result of \<^verbatim>\<open>getenv\<close> without a
  check: when \<^verbatim>\<open>DATASET_ROOT_DIR\<close> is not set, the construction from the null pointer is
  undefined, and it is the first thing the run does.
\<close>

theorem unset_root_variable_is_undefined:
  assumes "getenv ''DATASET_ROOT_DIR'' = None"
  shows "main getenv ext files tree_class param = ([], Inl NullString)"
  using assms by (simp add: main_def)

theorem unset_root_variable_is_undefined_witness:
  "main (\<lambda>name. None) demo_ext demo_files demo_tree demo_param = ([], Inl NullString)"
  using unset_root_variable_is_undefined [of "\<lambda>name. None" demo_ext demo_files demo_tree demo_param]
  by simp
section \<open>The lines of a file\<close>

subsection \<open>Lines, the stream and the loop\<close>

lemma file_lines_not_Nil: "file_lines cs \<noteq> []"
  by (induction cs) (auto split: list.splits)

lemma join_file_lines: "join_lines (file_lines cs) = cs"
proof (induction cs)
  case Nil
  show ?case by simp
next
  case (Cons c cs)
  obtain l ls where ls: "file_lines cs = l # ls"
    using file_lines_not_Nil [of cs] by (cases "file_lines cs") auto
  show ?case
  proof (cases "c = CHR 0x0A")
    case True
    with Cons ls show ?thesis by simp
  next
    case False
    with Cons ls show ?thesis by (cases ls) auto
  qed
qed

lemma file_lines_no_newline: "l \<in> set (file_lines cs) \<Longrightarrow> CHR 0x0A \<notin> set l"
proof (induction cs arbitrary: l)
  case Nil
  then show ?case by simp
next
  case (Cons c cs)
  obtain l' ls where ls: "file_lines cs = l' # ls"
    using file_lines_not_Nil [of cs] by (cases "file_lines cs") auto
  with Cons show ?case by (auto split: if_splits)
qed

lemma file_lines_append:
  "CHR 0x0A \<notin> set l \<Longrightarrow> file_lines (l @ CHR 0x0A # rest) = l # file_lines rest"
proof (induction l)
  case Nil
  show ?case by simp
next
  case (Cons c l)
  then show ?case by auto
qed

lemma extract_line_last:
  "CHR 0x0A \<notin> set l \<Longrightarrow> length l \<le> room \<Longrightarrow> extract_line room l = (l, [], True, False)"
proof (induction l arbitrary: room)
  case Nil
  show ?case by simp
next
  case (Cons c l)
  then obtain room' where "room = Suc room'" by (cases room) auto
  with Cons show ?case by auto
qed

lemma extract_line_newline:
  "CHR 0x0A \<notin> set l \<Longrightarrow> length l \<le> room \<Longrightarrow>
   extract_line room (l @ CHR 0x0A # rest) = (l, rest, False, False)"
proof (induction l arbitrary: room)
  case Nil
  show ?case by simp
next
  case (Cons c l)
  then obtain room' where "room = Suc room'" by (cases room) auto
  with Cons show ?case by auto
qed

lemma extract_line_take:
  "CHR 0x0A \<notin> set l \<Longrightarrow> rest = [] \<or> hd rest = CHR 0x0A \<Longrightarrow>
   fst (extract_line room (l @ rest)) = take room l"
proof (induction l arbitrary: room)
  case Nil
  then show ?case by (cases rest) auto
next
  case (Cons c l)
  show ?case
  proof (cases room)
    case 0
    with Cons.prems show ?thesis by simp
  next
    case (Suc room')
    with Cons.prems Cons.IH [of room'] show ?thesis
      by (auto simp: case_prod_beta)
  qed
qed

lemma extract_line_full:
  "CHR 0x0A \<notin> set l \<Longrightarrow> room < length l \<Longrightarrow>
   extract_line room (l @ rest) = (take room l, drop room l @ rest, False, True)"
proof (induction l arbitrary: room)
  case Nil
  then show ?case by simp
next
  case (Cons c l)
  show ?case
  proof (cases room)
    case 0
    with Cons.prems show ?thesis by auto
  next
    case (Suc room')
    with Cons.prems Cons.IH [of room'] show ?thesis by auto
  qed
qed

lemma c_string_take: "c_string l = [] \<Longrightarrow> c_string (take n l) = []"
  by (cases l; cases n) (auto simp: c_string_def split: if_splits)

lemma c_string_no_nul: "CHR 0x00 \<notin> set l \<Longrightarrow> c_string l = l"
  by (simp add: c_string_def takeWhile_eq_all_conv) metis

lemma join_lines_Cons:
  "join_lines (l # ls) = l @ (if ls = [] then [] else CHR 0x0A # join_lines ls)"
  by (cases ls) simp_all

lemma getline_empty_line:
  assumes "CHR 0x0A \<notin> set l" "c_string l = []"
  shows "c_string (fst (getline 2048 (good_stream (join_lines (l # ls))))) = []"
proof -
  have "fst (extract_line 2047 (join_lines (l # ls))) = take 2047 l"
    unfolding join_lines_Cons by (rule extract_line_take [OF assms(1)]) simp
  then show ?thesis
    by (simp add: getline_def good_stream_def case_prod_beta c_string_take [OF assms(2)])
qed

lemma getline_last_line:
  assumes "CHR 0x0A \<notin> set l" "length l \<le> 2047"
  shows "getline 2048 (good_stream (join_lines [l])) =
     (l, \<lparr>unread = [], eofbit = True, failbit = (l = [])\<rparr>)"
  using extract_line_last [OF assms(1), of 2047] assms(2)
  by (simp add: getline_def good_stream_def)

lemma getline_next_line:
  assumes "CHR 0x0A \<notin> set l" "length l \<le> 2047" "ls \<noteq> []"
  shows "getline 2048 (good_stream (join_lines (l # ls))) = (l, good_stream (join_lines ls))"
  using extract_line_newline [OF assms(1), of 2047 "join_lines ls"] assms(2,3)
  by (simp add: getline_def good_stream_def join_lines_Cons)

lemma getline_line:
  assumes "CHR 0x0A \<notin> set l" "length l \<le> 2047"
  shows "getline 2048 (good_stream (l @ CHR 0x0A # rest)) = (l, good_stream rest)"
  using extract_line_newline [OF assms(1), of 2047 rest] assms(2)
  by (simp add: getline_def good_stream_def)

lemma getline_long_line:
  assumes "CHR 0x0A \<notin> set l" "2047 < length l"
  shows "getline 2048 (good_stream (l @ rest)) =
     (take 2047 l, \<lparr>unread = drop 2047 l @ rest, eofbit = False, failbit = True\<rparr>)"
  using extract_line_full [OF assms(1), of 2047 rest] assms(2)
  by (simp add: getline_def good_stream_def)

lemma read_loop_at_eof:
  "eofbit fs \<Longrightarrow> read_loop ext data_config columns fs col2head data_all = Inr data_all"
  by (subst read_loop.simps) simp

lemma read_loop_stop:
  assumes "\<not> eofbit fs" "c_string (fst (getline 2048 fs)) = []"
  shows "read_loop ext data_config columns fs col2head data_all = Inr data_all"
  using assms by (subst read_loop.simps) (simp add: Let_def)

lemma read_loop_failed:
  assumes "failbit fs"
  shows "read_loop ext data_config columns fs col2head data_all = Inr data_all"
proof (cases "eofbit fs")
  case True
  then show ?thesis by (rule read_loop_at_eof)
next
  case False
  moreover from assms have "fst (getline 2048 fs) = []" by (simp add: getline_def)
  ultimately show ?thesis by (intro read_loop_stop) (simp_all add: c_string_def)
qed

lemma read_loop_header:
  assumes "getline 2048 fs = (buf, fs')" "\<not> eofbit fs" "c_string buf \<noteq> []"
  shows "read_loop ext data_config columns fs [] data_all =
     read_loop ext data_config columns fs' (map trim_if (split_compress (c_string buf))) data_all"
  using assms by (subst read_loop.simps) (simp add: Let_def)

lemma read_loop_row:
  assumes "getline 2048 fs = (buf, fs')" "\<not> eofbit fs" "c_string buf \<noteq> []" "col2head \<noteq> []"
  shows "read_loop ext data_config columns fs col2head data_all =
     (case fill_row ext data_config col2head (map trim_if (split_compress (c_string buf))) 0
             (replicate columns (VALUE_default ext)) of
        Inl e \<Rightarrow> Inl e
      | Inr data \<Rightarrow> read_loop ext data_config columns fs' col2head (data_all @ [data]))"
  using assms by (subst read_loop.simps) (simp add: Let_def)

lemma read_loop_lines:
  assumes "ls \<noteq> []" "\<forall>l \<in> set ls. CHR 0x0A \<notin> set l"
    "\<forall>l \<in> set (takeWhile (\<lambda>l. c_string l \<noteq> []) ls). length l \<le> 2047"
  shows "read_loop ext data_config (length data_config) (good_stream (join_lines ls)) col2head data_all
     = consume_lines ext data_config (takeWhile (\<lambda>l. l \<noteq> []) (map c_string ls)) col2head data_all"
  using assms
proof (induction ls arbitrary: col2head data_all)
  case Nil
  then show ?case by simp
next
  case (Cons l ls)
  let ?fs = "good_stream (join_lines (l # ls))"
  from Cons.prems(2) have nl: "CHR 0x0A \<notin> set l" by simp
  have good: "\<not> eofbit ?fs" by (simp add: good_stream_def)
  show ?case
  proof (cases "c_string l = []")
    case True
    from getline_empty_line [OF nl True] good
    have "read_loop ext data_config (length data_config) ?fs col2head data_all = Inr data_all"
      by (intro read_loop_stop)
    with True show ?thesis by simp
  next
    case False
    with Cons.prems(3) have short: "length l \<le> 2047" by simp
    let ?splits = "map trim_if (split_compress (c_string l))"
    let ?row = "fill_row ext data_config col2head ?splits 0
        (replicate (length data_config) (VALUE_default ext))"
    have step: "read_loop ext data_config (length data_config) ?fs col2head data_all =
        (if col2head = [] then
           read_loop ext data_config (length data_config) fs' ?splits data_all
         else (case ?row of Inl e \<Rightarrow> Inl e
               | Inr data \<Rightarrow>
                   read_loop ext data_config (length data_config) fs' col2head (data_all @ [data])))"
      if "getline 2048 ?fs = (l, fs')" for fs'
      using read_loop_header [OF that good False] read_loop_row [OF that good False]
      by simp
    have rhs: "consume_lines ext data_config (takeWhile (\<lambda>l. l \<noteq> []) (map c_string (l # ls)))
          col2head data_all =
        (if col2head = [] then
           consume_lines ext data_config (takeWhile (\<lambda>l. l \<noteq> []) (map c_string ls)) ?splits data_all
         else (case ?row of Inl e \<Rightarrow> Inl e
               | Inr data \<Rightarrow>
                   consume_lines ext data_config (takeWhile (\<lambda>l. l \<noteq> []) (map c_string ls))
                     col2head (data_all @ [data])))"
      using False by (simp add: parse_line_def)
    show ?thesis
    proof (cases "ls = []")
      case True
      have g: "getline 2048 ?fs = (l, \<lparr>unread = [], eofbit = True, failbit = (l = [])\<rparr>)"
        unfolding True by (rule getline_last_line [OF nl short])
      show ?thesis
        unfolding step [OF g] rhs
        by (simp add: True read_loop_at_eof split: sum.splits)
    next
      case ne: False
      have g: "getline 2048 ?fs = (l, good_stream (join_lines ls))"
        by (rule getline_next_line [OF nl short ne])
      from Cons.prems(2) have nls: "\<forall>l \<in> set ls. CHR 0x0A \<notin> set l" by simp
      from Cons.prems(3) False
      have shorts: "\<forall>l \<in> set (takeWhile (\<lambda>l. c_string l \<noteq> []) ls). length l \<le> 2047" by simp
      note ih = Cons.IH [OF ne nls shorts]
      show ?thesis
        unfolding step [OF g] rhs
        by (simp add: ih split: sum.splits)
    qed
  qed
qed

lemma split_compress_not_Nil: "split_compress cs \<noteq> []"
proof (induction cs)
  case Nil
  show ?case by simp
next
  case (Cons c cs)
  note IH = Cons.IH
  show ?case
  proof (cases "c = CHR '',''")
    case comma: True
    show ?thesis
    proof (cases cs)
      case Nil
      with comma show ?thesis by simp
    next
      case (Cons d ds)
      have "split_compress (CHR '','' # d # ds) =
          (if d = CHR '','' then split_compress (d # ds) else [] # split_compress (d # ds))"
        by (subst split_compress.simps(2)) (simp only: if_True list.case refl simp_thms)
      with IH Cons comma show ?thesis
        by (auto simp del: split_compress.simps)
    qed
  next
    case False
    then show ?thesis by (cases "split_compress cs") simp_all
  qed
qed

lemma consume_lines_rows:
  "col2head \<noteq> [] \<Longrightarrow>
   consume_lines ext data_config ls col2head data_all =
     (case parse_lines ext data_config col2head ls of
        Inl e \<Rightarrow> Inl e
      | Inr rs \<Rightarrow> Inr (data_all @ rs))"
proof (induction ls arbitrary: data_all)
  case Nil
  show ?case by simp
next
  case (Cons l ls)
  then show ?case by (simp split: sum.splits)
qed

lemma consume_lines_start:
  "consume_lines ext data_config ls [] [] = rows_of_lines ext data_config ls"
proof (cases ls)
  case Nil
  then show ?thesis by (simp add: rows_of_lines_def)
next
  case (Cons header rest)
  have "map trim_if (split_compress header) \<noteq> []"
    using split_compress_not_Nil [of header] by simp
  from consume_lines_rows [OF this, of ext data_config rest "[]"] Cons
  show ?thesis by (simp add: rows_of_lines_def split: sum.splits)
qed

lemma parse_lines_rows:
  "parse_lines ext data_config col2head ls = Inr rows \<Longrightarrow>
   length rows = length ls \<and>
   (\<forall>j < length ls. parse_line ext data_config col2head (ls ! j) = Inr (rows ! j))"
proof (induction ls arbitrary: rows)
  case Nil
  then show ?case by simp
next
  case (Cons l ls)
  from Cons.prems obtain r rs where
    r: "parse_line ext data_config col2head l = Inr r" and
    rs: "parse_lines ext data_config col2head ls = Inr rs" and
    rows: "rows = r # rs"
    by (auto split: sum.splits)
  from Cons.IH [OF rs] have ih: "length rs = length ls"
    "\<forall>j < length ls. parse_line ext data_config col2head (ls ! j) = Inr (rs ! j)"
    by simp_all
  have "parse_line ext data_config col2head ((l # ls) ! j) = Inr (rows ! j)"
    if "j < length (l # ls)" for j
    using that r ih(2) rows by (cases j) simp_all
  with ih(1) rows show ?case by simp
qed

subsection \<open>Two files that lose lines\<close>

lemma split_compress_no_comma: "CHR '','' \<notin> set l \<Longrightarrow> split_compress l = [l]"
  by (induction l) auto

lemma split_compress_comma:
  "CHR '','' \<notin> set a \<Longrightarrow> b = [] \<or> hd b \<noteq> CHR '','' \<Longrightarrow>
   split_compress (a @ CHR '','' # b) = a # split_compress b"
proof (induction a)
  case Nil
  then show ?case by (cases b) auto
next
  case (Cons c a)
  then show ?case by auto
qed

lemma trim_if_replicate: "\<not> is_trimmed_char c \<Longrightarrow> trim_if (replicate n c) = replicate n c"
  by (cases n) (simp_all add: trim_if_def dropWhile_replicate flip: replicate_Suc)

lemma long_line_data_lines: "length (data_lines long_line_csv) = 2"
proof -
  have "file_lines long_line_csv =
      [''SalePrice,Note'', ''10,'' @ replicate 2048 (CHR ''x''), ''0,ok'', []]"
    unfolding long_line_csv_def
    by (simp add: file_lines_append [of "''SalePrice,Note''", simplified]
        file_lines_append [of "''10,'' @ replicate 2048 (CHR ''x'')", simplified]
        file_lines_append [of "''0,ok''", simplified])
  then show ?thesis by (simp add: data_lines_def)
qed

lemma long_line_load:
  "load_data_from_one_file demo_ext (\<lambda>path. Some long_line_csv) ''train.csv'' (GetDataConfig [])
     = Inr [[Measurement (Finite 10), Category 0, Category 0, Category 0, Category 0,
             Category 0, Category 0, Category 0, Category 0]]"
proof -
  let ?long = "''10,'' @ replicate 2048 (CHR ''x'')"
  let ?rest = "''0,ok'' @ [CHR 0x0A]"
  let ?cfg = "GetDataConfig []"
  have len: "length ?cfg = 9" by (simp add: GetDataConfig_def map_insert_def)
  have g1: "getline 2048 (good_stream (''SalePrice,Note'' @ CHR 0x0A # ?long @ CHR 0x0A # ?rest))
      = (''SalePrice,Note'', good_stream (?long @ CHR 0x0A # ?rest))"
    by (rule getline_line) simp_all
  have g2: "getline 2048 (good_stream (?long @ CHR 0x0A # ?rest))
      = (''10,'' @ replicate 2044 (CHR ''x''),
         \<lparr>unread = drop 2047 ?long @ CHR 0x0A # ?rest, eofbit = False, failbit = True\<rparr>)"
    by (subst getline_long_line) simp_all
  have head: "map trim_if (split_compress (c_string ''SalePrice,Note'')) = [''SalePrice'', ''Note'']"
    by code_simp
  have c2: "c_string (''10,'' @ replicate 2044 (CHR ''x'')) = ''10,'' @ replicate 2044 (CHR ''x'')"
    by (rule c_string_no_nul) simp
  have cells: "map trim_if (split_compress (''10,'' @ replicate 2044 (CHR ''x'')))
      = [''10'', replicate 2044 (CHR ''x'')]"
  proof -
    have "split_compress (''10'' @ CHR '','' # replicate 2044 (CHR ''x''))
        = ''10'' # split_compress (replicate 2044 (CHR ''x''))"
      by (rule split_compress_comma) simp_all
    then have "split_compress (''10,'' @ replicate 2044 (CHR ''x''))
        = [''10'', replicate 2044 (CHR ''x'')]"
      by (simp add: split_compress_no_comma)
    moreover have "trim_if ''10'' = ''10''" by (simp add: trim_if_def is_trimmed_char_def)
    ultimately show ?thesis
      by (simp add: trim_if_replicate is_trimmed_char_def)
  qed
  have row: "fill_row demo_ext ?cfg [''SalePrice'', ''Note''] [''10'', replicate 2044 (CHR ''x'')] 0
       (replicate 9 (VALUE_default demo_ext))
     = Inr [Measurement (Finite 10), Category 0, Category 0, Category 0, Category 0,
            Category 0, Category 0, Category 0, Category 0]"
    by (simp add: fill_row.simps vec_index_def GetDataConfig_def map_insert_def cell_value_def
        demo_ext_def vec_assign_def numeral_eq_Suc)
  have "read_loop demo_ext ?cfg 9
          (good_stream (''SalePrice,Note'' @ CHR 0x0A # ?long @ CHR 0x0A # ?rest)) [] []
     = Inr [[Measurement (Finite 10), Category 0, Category 0, Category 0, Category 0,
             Category 0, Category 0, Category 0, Category 0]]"
    apply (subst read_loop_header [OF g1])
      apply (simp add: good_stream_def)
     apply (simp add: c_string_def)
    apply (subst head)
    apply (subst read_loop_row [OF g2])
       apply (simp add: good_stream_def)
      apply (simp only: c2, simp)
     apply simp
    apply (simp only: c2 cells row sum.case)
    apply (subst read_loop_failed)
     apply simp_all
    done
  then show ?thesis
    by (simp add: load_data_from_one_file_def len long_line_csv_def good_stream_def)
qed

lemma nul_line_data_lines: "length (data_lines nul_line_csv) = 3"
  by code_simp

lemma nul_line_load:
  "load_data_from_one_file demo_ext (\<lambda>path. Some nul_line_csv) ''train.csv'' (GetDataConfig [])
     = Inr [[Measurement (Finite 10), Category 0, Category 0, Category 0, Category 0,
             Category 0, Category 0, Category 0, Category 0]]"
  by code_simp

text \<open>
  The claim C8 as it is written fails on two files. In the first the second line has 2051
  characters: \<^verbatim>\<open>getline\<close> stores 2047 of them and sets \<^verbatim>\<open>failbit\<close>, the row of the cut line
  is returned, and the next call reads nothing, so the line after it is lost although no
  empty line comes before it. In the second the third line starts with a NUL character:
  the loader takes it for an empty line and stops, and the line after it is lost.
\<close>

theorem later_lines_lost_counterexample:
  "load_data_from_one_file demo_ext long_line_files ''train.csv'' (GetDataConfig []) = Inr [row_10] \<and>
   length (data_lines long_line_csv) = 2 \<and>
   load_data_from_one_file demo_ext nul_line_files ''train.csv'' (GetDataConfig []) = Inr [row_10] \<and>
   length (data_lines nul_line_csv) = 3"
proof -
  have "long_line_files = (\<lambda>path. Some long_line_csv)" "nul_line_files = (\<lambda>path. Some nul_line_csv)"
    by (simp_all add: fun_eq_iff long_line_files_def nul_line_files_def)
  with long_line_load long_line_data_lines nul_line_load nul_line_data_lines
  show ?thesis by (simp add: row_10_def)
qed

subsection \<open>The rows of a file\<close>

text \<open>
  Claim C8, amended. The loader reads every line up to its first NUL character, and a line
  that is empty then ends the reading. When none of the lines before that one has more than
  2047 characters, the dataset returned for a file has exactly one row for every line
  strictly after the first line, the header, and strictly before that line, in order; the
  header gives no row, and no later line is read.
\<close>

theorem rows_are_lines_after_header:
  assumes "files csv_file = Some text"
    and "\<forall>l \<in> set (takeWhile (\<lambda>l. c_string l \<noteq> []) (file_lines text)). length l \<le> 2047"
  shows "load_data_from_one_file ext files csv_file data_config
           = rows_of_lines ext data_config (lines_read text) \<and>
         (\<forall>rows. load_data_from_one_file ext files csv_file data_config = Inr rows \<longrightarrow>
            length rows = length (lines_read text) - 1 \<and>
            (\<forall>j < length rows.
               parse_line ext data_config (map trim_if (split_compress (hd (lines_read text))))
                 (lines_read text ! Suc j) = Inr (rows ! j)))"
proof -
  have "read_loop ext data_config (length data_config)
          (good_stream (join_lines (file_lines text))) [] []
      = consume_lines ext data_config (lines_read text) [] []"
    using file_lines_not_Nil [of "text"] file_lines_no_newline [of _ "text"] assms(2)
    unfolding lines_read_def
    by (intro read_loop_lines) auto
  then have load: "load_data_from_one_file ext files csv_file data_config
      = rows_of_lines ext data_config (lines_read text)"
    by (simp add: load_data_from_one_file_def assms(1) join_file_lines consume_lines_start
        good_stream_def)
  have "length rows = length (lines_read text) - 1 \<and>
        (\<forall>j < length rows.
           parse_line ext data_config (map trim_if (split_compress (hd (lines_read text))))
             (lines_read text ! Suc j) = Inr (rows ! j))"
    if "rows_of_lines ext data_config (lines_read text) = Inr rows" for rows
  proof (cases "lines_read text")
    case Nil
    with that show ?thesis by (simp add: rows_of_lines_def)
  next
    case (Cons header rest)
    with that have "parse_lines ext data_config (map trim_if (split_compress header)) rest = Inr rows"
      by (simp add: rows_of_lines_def)
    from parse_lines_rows [OF this] Cons show ?thesis by simp
  qed
  with load show ?thesis by simp
qed

theorem rows_are_lines_after_header_witness:
  "demo_files (''data/house_price'' @ [CHR 0x5C] @ ''/train.csv'') = Some demo_train_csv \<and>
   list_all (\<lambda>l. length l \<le> 2047)
     (takeWhile (\<lambda>l. c_string l \<noteq> []) (file_lines demo_train_csv)) \<and>
   lines_read demo_train_csv = [''SalePrice,Street,LotShape'', ''10,Pave,3'', ''0,Grvl,4''] \<and>
   load_data_from_one_file demo_ext demo_files (''data/house_price'' @ [CHR 0x5C] @ ''/train.csv'')
     (GetDataConfig []) = Inr demo_trainset \<and>
   rows_of_lines demo_ext (GetDataConfig []) (lines_read demo_train_csv) = Inr demo_trainset \<and>
   length demo_trainset = length (lines_read demo_train_csv) - 1"
proof -
  have f: "demo_files (''data/house_price'' @ [CHR 0x5C] @ ''/train.csv'') = Some demo_train_csv"
    by (simp add: demo_files_def)
  have ls: "file_lines demo_train_csv = [''SalePrice,Street,LotShape'', ''10,Pave,3'', ''0,Grvl,4'', []]"
    by code_simp
  have short: "\<forall>l \<in> set (takeWhile (\<lambda>l. c_string l \<noteq> []) (file_lines demo_train_csv)).
      length l \<le> 2047"
    unfolding ls by (simp add: c_string_def)
  have lr: "lines_read demo_train_csv = [''SalePrice,Street,LotShape'', ''10,Pave,3'', ''0,Grvl,4'']"
    unfolding lines_read_def ls by (simp add: c_string_def)
  note th = rows_are_lines_after_header [of demo_files _ demo_train_csv demo_ext "GetDataConfig []",
      OF f short]
  from th demo_load_train have
    "rows_of_lines demo_ext (GetDataConfig []) (lines_read demo_train_csv) = Inr demo_trainset"
    "length demo_trainset = length (lines_read demo_train_csv) - 1"
    by simp_all
  with f short lr demo_load_train show ?thesis
    by (simp add: list_all_iff)
qed
section \<open>The cells of a row\<close>

















end
